theory Spec2Isabelle
  imports Complex_Main "HOL-Library.Word" "HOL-Library.Multiset" "HOL-Library.Log_Nat"
begin

section \<open>The event directory service of \<^verbatim>\<open>src/api/server.js\<close>\<close>

text \<open>
  The service keeps a list of events in memory, each with its attendees, and answers five
  routes: health, list events, event detail, list attendees (search, sort, paginate) and
  check-in. The theory embeds the route handlers and the helpers they call
  (\<^verbatim>\<open>normalize\<close>, \<^verbatim>\<open>findEvent\<close>, \<^verbatim>\<open>buildStats\<close>).
  The optional bearer-token middleware and the body parser that run in front of the
  handlers are not part of the model: a handler is modelled from the moment Express
  calls it, with the parsed path parameter, query object and body.
\<close>

subsection \<open>Strings\<close>

text \<open>
  A JavaScript string is a sequence of UTF-16 code units. \<open>js\<close> writes an ASCII literal
  as such a sequence; a code unit beyond ASCII is written as a number.
\<close>

type_synonym jsstring = "16 word list"

definition js :: "string \<Rightarrow> jsstring" where
  "js s = map of_char s"

subsection \<open>Values of a request\<close>

text \<open>
  What \<^verbatim>\<open>req.body\<close> can hold after \<^verbatim>\<open>express.json()\<close>: a JSON value, or
  \<^verbatim>\<open>undefined\<close> when no body was parsed. A JSON object is the list of its
  properties (the parser keeps one value per key). Numbers are rationals; a number too
  large for a double reads as Infinity, which is truthy as every non-zero number is.
\<close>

datatype jsval =
    JUndefined
  | JNull
  | JBool bool
  | JNum rat
  | JStr jsstring
  | JArr "jsval list"
  | JObj "(jsstring \<times> jsval) list"

text \<open>JavaScript's ToBoolean, which \<^verbatim>\<open>!x\<close>, \<^verbatim>\<open>x || y\<close> and \<^verbatim>\<open>if (x)\<close> apply.\<close>

fun truthy :: "jsval \<Rightarrow> bool" where
  "truthy JUndefined = False"
| "truthy JNull = False"
| "truthy (JBool b) = b"
| "truthy (JNum r) = (r \<noteq> 0)"
| "truthy (JStr s) = (s \<noteq> [])"
| "truthy (JArr _) = True"
| "truthy (JObj _) = True"

text \<open>\<^verbatim>\<open>a || b\<close>.\<close>

definition js_or :: "jsval \<Rightarrow> jsval \<Rightarrow> jsval" where
  "js_or a b = (if truthy a then a else b)"

text \<open>
  \<^verbatim>\<open>const { attendeeId } = v\<close>: destructuring \<^verbatim>\<open>undefined\<close> or \<^verbatim>\<open>null\<close>
  throws a TypeError. Otherwise the result is the property \<^verbatim>\<open>attendeeId\<close> of
  \<open>v\<close>; only an object can have it, and arrays, strings, numbers and booleans, which
  have no property of that name, give \<^verbatim>\<open>undefined\<close>.
\<close>

datatype error = TypeError

definition destructure_attendeeId :: "jsval \<Rightarrow> error + jsval" where
  "destructure_attendeeId v =
     (case v of
        JUndefined \<Rightarrow> Inl TypeError
      | JNull \<Rightarrow> Inl TypeError
      | JObj props \<Rightarrow>
          (case map_of props (js ''attendeeId'') of
             Some x \<Rightarrow> Inr x
           | None \<Rightarrow> Inr JUndefined)
      | _ \<Rightarrow> Inr JUndefined)"

text \<open>
  A value of \<^verbatim>\<open>req.query\<close>: the query-string parser gives a string, or an array or
  an object for a repeated or bracketed parameter. An absent parameter is
  \<^verbatim>\<open>undefined\<close>, here \<open>None\<close>.
\<close>

datatype qval =
    QStr jsstring
  | QArr "qval list"
  | QObj "(jsstring \<times> qval) list"

record query =
  search :: "qval option"
  page :: "qval option"
  limit :: "qval option"

text \<open>\<^verbatim>\<open>v || d\<close> for a query value and a string default.\<close>

fun q_truthy :: "qval \<Rightarrow> bool" where
  "q_truthy (QStr s) = (s \<noteq> [])"
| "q_truthy (QArr _) = True"
| "q_truthy (QObj _) = True"

definition q_or :: "qval option \<Rightarrow> jsstring \<Rightarrow> qval" where
  "q_or v d = (case v of None \<Rightarrow> QStr d | Some x \<Rightarrow> if q_truthy x then x else QStr d)"

text \<open>
  \<^verbatim>\<open>String(v)\<close>, which both \<^verbatim>\<open>normalize\<close> and \<^verbatim>\<open>parseInt\<close> apply to their
  argument. A string is itself. An object is \<^verbatim>\<open>[object Object]\<close>, by the
  \<^verbatim>\<open>toString\<close> it inherits, unless it has a property \<^verbatim>\<open>toString\<close> of its own
  (\<^verbatim>\<open>?page[toString]=1\<close> gives one): that property is a string, an array or an
  object and cannot be called, \<^verbatim>\<open>valueOf\<close> gives no primitive either, and the
  conversion throws a TypeError. An array is its elements, converted one by one and
  joined by commas; it throws when an element does.
\<close>

fun join_comma :: "jsstring list \<Rightarrow> jsstring" where
  "join_comma [] = []"
| "join_comma [s] = s"
| "join_comma (s # t # ss) = s @ js '','' @ join_comma (t # ss)"

fun all_converted :: "(error + 'a) list \<Rightarrow> error + 'a list" where
  "all_converted [] = Inr []"
| "all_converted (Inl err # _) = Inl err"
| "all_converted (Inr x # rs) =
     (case all_converted rs of Inl err \<Rightarrow> Inl err | Inr xs \<Rightarrow> Inr (x # xs))"

fun js_String :: "qval \<Rightarrow> error + jsstring" where
  "js_String (QStr s) = Inr s"
| "js_String (QArr vs) =
     (case all_converted (map js_String vs) of
        Inl err \<Rightarrow> Inl err
      | Inr ss \<Rightarrow> Inr (join_comma ss))"
| "js_String (QObj props) =
     (if js ''toString'' \<in> set (map fst props) then Inl TypeError
      else Inr (js ''[object Object]''))"

subsection \<open>Numbers\<close>

text \<open>
  The handlers compute with the numbers \<^verbatim>\<open>parseInt\<close> returns: doubles that are
  integers, the two infinities and NaN. \<open>Num n\<close> is the double whose value is the
  integer \<open>n\<close>.
\<close>

datatype jsnum = Num int | PInf | NInf | NaN

text \<open>
  The double nearest to a non-negative integer. Up to \<open>2^53\<close> every integer is a
  double. Beyond, an integer of \<open>b\<close> bits lies between multiples of \<open>2^(b - 53)\<close>,
  which are doubles, and goes to the nearer one, or to the one with the even mantissa when
  it is half-way.
\<close>

definition nearest_double :: "int \<Rightarrow> int" where
  "nearest_double n =
     (if n < 2 ^ 53 then n
      else (let ulp = 2 ^ nat (bitlen n - 53);
                q = n div ulp;
                r = n mod ulp
            in (if 2 * r < ulp \<or> (2 * r = ulp \<and> even q) then q else q + 1) * ulp))"

text \<open>
  The Number value for an integer, which every arithmetic operation returns for its
  exact result: the nearest double, and Infinity when that would be \<open>2^1024\<close> or more.
\<close>

definition to_number :: "int \<Rightarrow> jsnum" where
  "to_number n =
     (let m = nearest_double \<bar>n\<bar>
      in if 2 ^ 1024 \<le> m then (if n < 0 then NInf else PInf)
         else Num (if n < 0 then - m else m))"

text \<open>
  \<^verbatim>\<open>parseInt(s, 10)\<close>: leading white space is skipped, then an optional sign, then
  the longest run of decimal digits is read; with no digit the result is NaN. What
  follows the digits is ignored. The result is the Number value for the integer the
  digits write (the standard lets an engine read digits after the twentieth as zeros;
  the model reads them all, as V8 does).
\<close>

definition is_white_space :: "16 word \<Rightarrow> bool" where
  "is_white_space c \<longleftrightarrow>
     c \<in> set [0x9, 0xA, 0xB, 0xC, 0xD, 0x20, 0xA0, 0x1680, 0x2028, 0x2029, 0x202F,
              0x205F, 0x3000, 0xFEFF]
     \<or> (0x2000 \<le> c \<and> c \<le> 0x200A)"

definition is_digit :: "16 word \<Rightarrow> bool" where
  "is_digit c \<longleftrightarrow> 0x30 \<le> c \<and> c \<le> 0x39"

definition digits_value :: "jsstring \<Rightarrow> int" where
  "digits_value ds = foldl (\<lambda>n c. 10 * n + (uint c - 0x30)) 0 ds"

definition parseInt :: "jsstring \<Rightarrow> jsnum" where
  "parseInt str =
     (let s = dropWhile is_white_space str;
          negative = (s \<noteq> [] \<and> hd s = 0x2D);
          s' = (if s \<noteq> [] \<and> (hd s = 0x2B \<or> hd s = 0x2D) then tl s else s);
          z = takeWhile is_digit s'
      in if z = [] then NaN
         else to_number (if negative then - digits_value z else digits_value z))"

text \<open>\<^verbatim>\<open>Math.max(a, b)\<close>: NaN when either argument is NaN.\<close>

fun js_le :: "jsnum \<Rightarrow> jsnum \<Rightarrow> bool" where
  "js_le NaN _ = False"
| "js_le _ NaN = False"
| "js_le NInf _ = True"
| "js_le _ PInf = True"
| "js_le (Num a) (Num b) = (a \<le> b)"
| "js_le _ _ = False"

definition Math_max :: "jsnum \<Rightarrow> jsnum \<Rightarrow> jsnum" where
  "Math_max a b =
     (if a = NaN \<or> b = NaN then NaN else if js_le a b then b else a)"

text \<open>The arithmetic of the pagination: \<^verbatim>\<open>a - b\<close>, \<^verbatim>\<open>a * b\<close>, \<^verbatim>\<open>a + b\<close>.\<close>

fun js_neg :: "jsnum \<Rightarrow> jsnum" where
  "js_neg (Num a) = Num (- a)"
| "js_neg PInf = NInf"
| "js_neg NInf = PInf"
| "js_neg NaN = NaN"

fun js_add :: "jsnum \<Rightarrow> jsnum \<Rightarrow> jsnum" where
  "js_add NaN _ = NaN"
| "js_add _ NaN = NaN"
| "js_add (Num a) (Num b) = to_number (a + b)"
| "js_add PInf NInf = NaN"
| "js_add NInf PInf = NaN"
| "js_add PInf _ = PInf"
| "js_add NInf _ = NInf"
| "js_add _ PInf = PInf"
| "js_add _ NInf = NInf"

definition js_sub :: "jsnum \<Rightarrow> jsnum \<Rightarrow> jsnum" where
  "js_sub a b = js_add a (js_neg b)"

fun js_sign :: "jsnum \<Rightarrow> int" where
  "js_sign (Num a) = sgn a"
| "js_sign PInf = 1"
| "js_sign NInf = - 1"
| "js_sign NaN = 0"

fun js_mul :: "jsnum \<Rightarrow> jsnum \<Rightarrow> jsnum" where
  "js_mul NaN _ = NaN"
| "js_mul _ NaN = NaN"
| "js_mul (Num a) (Num b) = to_number (a * b)"
| "js_mul a b =
     (if js_sign a * js_sign b = 0 then NaN
      else if js_sign a * js_sign b > 0 then PInf else NInf)"

subsection \<open>Arrays\<close>

text \<open>
  \<^verbatim>\<open>xs.slice(start, end)\<close>: both bounds go through ToIntegerOrInfinity (NaN is 0),
  a negative bound counts from the end, and both are clamped to the array.
\<close>

fun slice_bound :: "nat \<Rightarrow> jsnum \<Rightarrow> nat" where
  "slice_bound len NaN = 0"
| "slice_bound len NInf = 0"
| "slice_bound len PInf = len"
| "slice_bound len (Num n) =
     (if n < 0 then nat (max (int len + n) 0) else min (nat n) len)"

definition js_slice :: "'a list \<Rightarrow> jsnum \<Rightarrow> jsnum \<Rightarrow> 'a list" where
  "js_slice xs start end' =
     (let k = slice_bound (length xs) start;
          final = slice_bound (length xs) end'
      in take (final - k) (drop k xs))"

text \<open>
  \<^verbatim>\<open>xs.find(p)\<close> returns the first element that satisfies \<open>p\<close>, an object of the
  store that the caller may then assign to. The model returns the position of that
  element, which stands for the reference; \<open>None\<close> is \<^verbatim>\<open>undefined\<close>.
\<close>

fun find_index :: "('a \<Rightarrow> bool) \<Rightarrow> 'a list \<Rightarrow> nat option" where
  "find_index p [] = None"
| "find_index p (x # xs) = (if p x then Some 0 else map_option Suc (find_index p xs))"

text \<open>
  \<^verbatim>\<open>target.includes(search)\<close>: whether \<open>search\<close> occurs in \<open>target\<close> as a
  contiguous run of code units, tried at every position from the left.
\<close>

fun starts_with :: "'a list \<Rightarrow> 'a list \<Rightarrow> bool" where
  "starts_with _ [] = True"
| "starts_with [] (_ # _) = False"
| "starts_with (x # xs) (y # ys) = (x = y \<and> starts_with xs ys)"

fun includes_str :: "'a list \<Rightarrow> 'a list \<Rightarrow> bool" where
  "includes_str [] s = (s = [])"
| "includes_str (x # xs) s = (starts_with (x # xs) s \<or> includes_str xs s)"

text \<open>
  \<^verbatim>\<open>xs.sort(cmp)\<close>: a stable sort by the comparator, where \<open>cmp a b \<le> 0\<close> keeps
  \<open>a\<close> before \<open>b\<close>. For a consistent comparator every stable sort returns the same
  array; the model is insertion sort.
\<close>

fun insort_by :: "('a \<Rightarrow> 'a \<Rightarrow> int) \<Rightarrow> 'a \<Rightarrow> 'a list \<Rightarrow> 'a list" where
  "insort_by cmp x [] = [x]"
| "insort_by cmp x (y # ys) =
     (if cmp x y \<le> 0 then x # y # ys else y # insort_by cmp x ys)"

definition sort_by :: "('a \<Rightarrow> 'a \<Rightarrow> int) \<Rightarrow> 'a list \<Rightarrow> 'a list" where
  "sort_by cmp xs = foldr (insort_by cmp) xs []"

subsection \<open>Built-ins that depend on the engine\<close>

text \<open>
  Three built-ins read the Unicode tables or the locale of the engine that runs the
  service: \<^verbatim>\<open>s.normalize('NFD')\<close>, \<^verbatim>\<open>s.toLowerCase()\<close> and
  \<^verbatim>\<open>a.localeCompare(b)\<close>. The handlers take them as a parameter, so that what is
  proved of a handler holds for every engine.
\<close>

record runtime =
  nfd :: "jsstring \<Rightarrow> jsstring"
  toLowerCase :: "jsstring \<Rightarrow> jsstring"
  localeCompare :: "jsstring \<Rightarrow> jsstring \<Rightarrow> int"

text \<open>
  \<^verbatim>\<open>normalize\<close> (lines 19-23): decompose, delete the combining marks
  \<open>U+0300\<close> to \<open>U+036F\<close>, lower the case. Its callers pass a string, or the
  \<^verbatim>\<open>String\<close> of a query value; the default \<^verbatim>\<open>''\<close> of the parameter is never
  used.
\<close>

definition is_combining_mark :: "16 word \<Rightarrow> bool" where
  "is_combining_mark c \<longleftrightarrow> 0x300 \<le> c \<and> c \<le> 0x36F"

definition normalize_text :: "runtime \<Rightarrow> jsstring \<Rightarrow> jsstring" where
  "normalize_text rt s =
     toLowerCase rt (filter (\<lambda>c. \<not> is_combining_mark c) (nfd rt s))"

subsection \<open>The store\<close>

record attendee =
  attendee_id :: jsstring
  name :: jsstring
  email :: jsstring
  document :: jsstring
  checkedInAt :: "jsstring option"

record event =
  event_id :: jsstring
  title :: jsstring
  startsAt :: jsstring
  endsAt :: jsstring
  location :: jsstring
  attendees :: "attendee list"

text \<open>
  The seed (lines 38-92). \<open>None\<close> is \<^verbatim>\<open>null\<close>. Every event and every attendee
  of the seed is an object of its own, and no request adds, removes or moves one: the
  position of an object in the store identifies it for the life of the process.
\<close>

definition events :: "event list" where
  "events =
   [\<lparr>event_id = js ''evt_123'',
     title = js ''Confer'' @ [0xEA] @ js ''ncia de Tecnologia 2025'',
     startsAt = js ''2025-09-15T09:00:00-03:00'',
     endsAt = js ''2025-09-15T18:00:00-03:00'',
     location = js ''Audit'' @ [0xF3] @ js ''rio AMF'',
     attendees =
      [\<lparr>attendee_id = js ''att_001'',
        name = js ''Ana Souza'',
        email = js ''ana@exemplo.com'',
        document = js ''123.456.789-00'',
        checkedInAt = None\<rparr>,
       \<lparr>attendee_id = js ''att_002'',
        name = js ''Jos'' @ [0xE9] @ js '' da Silva'',
        email = js ''jose@exemplo.com'',
        document = js ''987.654.321-00'',
        checkedInAt = None\<rparr>,
       \<lparr>attendee_id = js ''att_003'',
        name = js ''Marcos Pereira'',
        email = js ''marcos@exemplo.com'',
        document = js ''111.222.333-44'',
        checkedInAt = Some (js ''2025-09-15T09:32:12-03:00'')\<rparr>]\<rparr>,
    \<lparr>event_id = js ''evt_456'',
     title = js ''Simp'' @ [0xF3] @ js ''sio de IA Aplicada'',
     startsAt = js ''2025-10-10T14:00:00-03:00'',
     endsAt = js ''2025-10-10T19:00:00-03:00'',
     location = js ''Centro de Inova'' @ [0xE7, 0xE3] @ js ''o'',
     attendees =
      [\<lparr>attendee_id = js ''att_101'',
        name = js ''Bianca Felix'',
        email = js ''bianca@exemplo.com'',
        document = js ''222.333.444-55'',
        checkedInAt = None\<rparr>,
       \<lparr>attendee_id = js ''att_102'',
        name = js ''Felipe Nunes'',
        email = js ''felipe@exemplo.com'',
        document = js ''333.444.555-66'',
        checkedInAt = None\<rparr>]\<rparr>]"

text \<open>\<^verbatim>\<open>findEvent\<close> (lines 94-96): the first event with the identifier.\<close>

definition findEvent :: "event list \<Rightarrow> jsstring \<Rightarrow> nat option" where
  "findEvent evs eventId = find_index (\<lambda>e. event_id e = eventId) evs"

text \<open>
  The truth value of a \<^verbatim>\<open>checkedInAt\<close> field: \<^verbatim>\<open>null\<close> and the empty string
  are falsy.
\<close>

definition stamp_truthy :: "jsstring option \<Rightarrow> bool" where
  "stamp_truthy t = (case t of None \<Rightarrow> False | Some s \<Rightarrow> s \<noteq> [])"

text \<open>\<^verbatim>\<open>buildStats\<close> (lines 98-102).\<close>

record stats =
  total_attendees :: int
  checkedIn :: int
  absent :: int

definition buildStats :: "event \<Rightarrow> stats" where
  "buildStats event =
     (let total = int (length (attendees event));
          checkedIn = int (length (filter (\<lambda>a. stamp_truthy (checkedInAt a)) (attendees event)))
      in \<lparr>total_attendees = total, checkedIn = checkedIn, absent = total - checkedIn\<rparr>)"

subsection \<open>Responses\<close>

text \<open>
  A response is the status code and the JSON body. \<open>Attendees\<close> is
  \<^verbatim>\<open>{data, page, limit, total}\<close> and \<open>CheckedIn\<close> is
  \<^verbatim>\<open>{attendeeId, checkedInAt}\<close>. \<open>Thrown\<close> stands for an exception that
  escapes a handler, which Express answers with status 500.
\<close>

record event_json =
  ej_id :: jsstring
  ej_title :: jsstring
  ej_startsAt :: jsstring
  ej_endsAt :: jsstring
  ej_location :: jsstring
  ej_stats :: stats

datatype body =
    Thrown error
  | Error string
  | Health jsstring
  | EventList "event_json list"
  | EventDetail event_json
  | Attendees "attendee list" jsnum jsnum nat
  | CheckedIn jsval "jsstring option"

type_synonym response = "nat \<times> body"

subsection \<open>The read-only routes\<close>

text \<open>\<^verbatim>\<open>GET /health\<close> (lines 107-109); \<open>now\<close> is what \<^verbatim>\<open>nowISO()\<close> returns.\<close>

definition health :: "jsstring \<Rightarrow> response" where
  "health now = (200, Health now)"

text \<open>The object both event routes build (lines 113-120 and 129-136).\<close>

definition event_payload :: "event \<Rightarrow> event_json" where
  "event_payload e =
     \<lparr>ej_id = event_id e, ej_title = title e, ej_startsAt = startsAt e,
      ej_endsAt = endsAt e, ej_location = location e, ej_stats = buildStats e\<rparr>"

text \<open>\<^verbatim>\<open>GET /events\<close> (lines 112-122).\<close>

definition list_events :: "event list \<Rightarrow> response" where
  "list_events evs = (200, EventList (map event_payload evs))"

text \<open>\<^verbatim>\<open>GET /events/:id\<close> (lines 125-139).\<close>

definition get_event :: "event list \<Rightarrow> jsstring \<Rightarrow> response" where
  "get_event evs eventId =
     (case findEvent evs eventId of
        None \<Rightarrow> (404, Error ''Event not found'')
      | Some i \<Rightarrow> (200, EventDetail (event_payload (evs ! i))))"

subsection \<open>Arrays the attendee route works on\<close>

text \<open>
  The attendee route copies the event's array, filters the copy into a new array and
  sorts that array in place (\<^verbatim>\<open>Array.prototype.sort\<close> writes into the array it is
  called on). Which array a step writes into decides whether the store changes, so the
  route is modelled over a memory of arrays: a reference is the array of a stored
  event, or an array the handler has allocated. Reading and writing go through the
  reference; \<^verbatim>\<open>slice\<close> and \<^verbatim>\<open>filter\<close> allocate, \<^verbatim>\<open>sort\<close> writes in place.
\<close>

datatype aref = Stored nat | Local nat

record memory =
  store :: "event list"
  locals :: "attendee list list"

fun get_array :: "memory \<Rightarrow> aref \<Rightarrow> attendee list" where
  "get_array m (Stored i) = attendees (store m ! i)"
| "get_array m (Local k) = locals m ! k"

fun put_array :: "aref \<Rightarrow> attendee list \<Rightarrow> memory \<Rightarrow> memory" where
  "put_array (Stored i) xs m = m\<lparr>store := (store m)[i := (store m ! i)\<lparr>attendees := xs\<rparr>]\<rparr>"
| "put_array (Local k) xs m = m\<lparr>locals := (locals m)[k := xs]\<rparr>"

definition new_array :: "attendee list \<Rightarrow> memory \<Rightarrow> aref \<times> memory" where
  "new_array xs m = (Local (length (locals m)), m\<lparr>locals := locals m @ [xs]\<rparr>)"

definition array_copy :: "aref \<Rightarrow> memory \<Rightarrow> aref \<times> memory" where
  "array_copy r m = new_array (get_array m r) m"

definition array_filter :: "(attendee \<Rightarrow> bool) \<Rightarrow> aref \<Rightarrow> memory \<Rightarrow> aref \<times> memory" where
  "array_filter p r m = new_array (filter p (get_array m r)) m"

definition array_sort :: "(attendee \<Rightarrow> attendee \<Rightarrow> int) \<Rightarrow> aref \<Rightarrow> memory \<Rightarrow> memory" where
  "array_sort cmp r m = put_array r (sort_by cmp (get_array m r)) m"

definition array_slice :: "aref \<Rightarrow> jsnum \<Rightarrow> jsnum \<Rightarrow> memory \<Rightarrow> aref \<times> memory" where
  "array_slice r start end' m = new_array (js_slice (get_array m r) start end') m"

subsection \<open>The attendee route\<close>

text \<open>The string an attendee is searched in (lines 154-159).\<close>

definition search_target :: "runtime \<Rightarrow> attendee \<Rightarrow> jsstring" where
  "search_target rt a =
     normalize_text rt (name a) @ js '' '' @ normalize_text rt (email a) @ js '' '' @
     normalize_text rt (document a)"

text \<open>The comparator of the sort (line 165).\<close>

definition by_name :: "runtime \<Rightarrow> attendee \<Rightarrow> attendee \<Rightarrow> int" where
  "by_name rt a b = localeCompare rt (normalize_text rt (name a)) (normalize_text rt (name b))"

text \<open>The three values read from the query (lines 146-148).\<close>

definition search_text :: "runtime \<Rightarrow> query \<Rightarrow> error + jsstring" where
  "search_text rt q =
     (case js_String (q_or (search q) []) of
        Inl err \<Rightarrow> Inl err
      | Inr s \<Rightarrow> Inr (normalize_text rt s))"

definition page_number :: "query \<Rightarrow> error + jsnum" where
  "page_number q =
     (case js_String (q_or (page q) (js ''1'')) of
        Inl err \<Rightarrow> Inl err
      | Inr s \<Rightarrow> Inr (Math_max (parseInt s) (Num 1)))"

definition page_size :: "query \<Rightarrow> error + jsnum" where
  "page_size q =
     (case js_String (q_or (limit q) (js ''20'')) of
        Inl err \<Rightarrow> Inl err
      | Inr s \<Rightarrow> Inr (Math_max (parseInt s) (Num 1)))"

text \<open>
  The three statements in their order: the first that throws ends the handler. The
  primed names are the constants \<^verbatim>\<open>search\<close>, \<^verbatim>\<open>page\<close> and \<^verbatim>\<open>limit\<close> of the
  handler.
\<close>

definition read_query :: "runtime \<Rightarrow> query \<Rightarrow> error + (jsstring \<times> jsnum \<times> jsnum)" where
  "read_query rt q =
     (case search_text rt q of
        Inl err \<Rightarrow> Inl err
      | Inr search' \<Rightarrow>
          (case page_number q of
             Inl err \<Rightarrow> Inl err
           | Inr page' \<Rightarrow>
               (case page_size q of
                  Inl err \<Rightarrow> Inl err
                | Inr limit' \<Rightarrow> Inr (search', page', limit'))))"

text \<open>
  \<^verbatim>\<open>GET /events/:id/attendees\<close> (lines 142-173), over the memory. The handler
  starts with no array of its own; the arrays it allocates are garbage once the response
  is sent. An exception thrown while the query is read escapes the handler before it has
  touched an array, and Express answers 500.
\<close>

definition list_attendees_mem ::
  "runtime \<Rightarrow> jsstring \<Rightarrow> query \<Rightarrow> memory \<Rightarrow> response \<times> memory" where
  "list_attendees_mem rt eventId q m =
     (case findEvent (store m) eventId of
        None \<Rightarrow> ((404, Error ''Event not found''), m)
      | Some i \<Rightarrow>
          (case read_query rt q of
             Inl err \<Rightarrow> ((500, Thrown err), m)
           | Inr (search', page', limit') \<Rightarrow>
               (let (list, m1) = array_copy (Stored i) m;
                    (list, m2) =
                      (if search' \<noteq> []
                       then array_filter (\<lambda>a. includes_str (search_target rt a) search') list m1
                       else (list, m1));
                    m3 = array_sort (by_name rt) list m2;
                    total = length (get_array m3 list);
                    start = js_mul (js_sub page' (Num 1)) limit';
                    end' = js_add start limit';
                    (data, m4) = array_slice list start end' m3
                in ((200, Attendees (get_array m4 data) page' limit' total), m4))))"

definition list_attendees ::
  "runtime \<Rightarrow> jsstring \<Rightarrow> query \<Rightarrow> event list \<Rightarrow> response \<times> event list" where
  "list_attendees rt eventId q evs =
     (let (res, m) = list_attendees_mem rt eventId q \<lparr>store = evs, locals = []\<rparr>
      in (res, store m))"

subsection \<open>Check-in\<close>

text \<open>
  \<^verbatim>\<open>attendee.checkedInAt = v\<close> for the attendee at position \<open>j\<close> of the event at
  position \<open>i\<close>: the one field of the one object is assigned.
\<close>

definition set_checkedInAt :: "nat \<Rightarrow> nat \<Rightarrow> jsstring option \<Rightarrow> event list \<Rightarrow> event list" where
  "set_checkedInAt i j v evs =
     evs[i := (evs ! i)\<lparr>attendees :=
       (attendees (evs ! i))[j := (attendees (evs ! i) ! j)\<lparr>checkedInAt := v\<rparr>]\<rparr>]"

text \<open>
  \<^verbatim>\<open>POST /events/:id/checkin\<close> (lines 176-198); \<open>now\<close> is what \<^verbatim>\<open>nowISO()\<close>
  returns. \<^verbatim>\<open>a.id === attendeeId\<close> holds when the value is a string equal to the
  identifier.
\<close>

definition checkin ::
  "jsstring \<Rightarrow> jsstring \<Rightarrow> jsval \<Rightarrow> event list \<Rightarrow> response \<times> event list" where
  "checkin now eventId body evs =
     (case findEvent evs eventId of
        None \<Rightarrow> ((404, Error ''Event not found''), evs)
      | Some i \<Rightarrow>
          (case destructure_attendeeId (js_or body (JObj [])) of
             Inl err \<Rightarrow> ((500, Thrown err), evs)
           | Inr attendeeId \<Rightarrow>
               if \<not> truthy attendeeId then ((400, Error ''attendeeId is required''), evs)
               else
                 (case find_index (\<lambda>a. JStr (attendee_id a) = attendeeId)
                         (attendees (evs ! i)) of
                    None \<Rightarrow> ((422, Error ''Attendee not in this event''), evs)
                  | Some j \<Rightarrow>
                      (if stamp_truthy (checkedInAt (attendees (evs ! i) ! j))
                       then ((409, CheckedIn attendeeId (checkedInAt (attendees (evs ! i) ! j))),
                             evs)
                       else ((201, CheckedIn attendeeId (Some now)),
                             set_checkedInAt i j (Some now) evs)))))"

subsection \<open>The router\<close>

datatype request =
    GetHealth
  | GetEvents
  | GetEvent jsstring
  | GetAttendees jsstring query
  | PostCheckin jsstring jsval

text \<open>
  One request against the store: the response and the store after it. \<open>now\<close> is the
  clock reading \<^verbatim>\<open>nowISO()\<close> gives during the request. The three routes that only
  read the events have no statement that assigns to anything.
\<close>

definition handle ::
  "runtime \<Rightarrow> jsstring \<Rightarrow> request \<Rightarrow> event list \<Rightarrow> response \<times> event list" where
  "handle rt now req evs =
     (case req of
        GetHealth \<Rightarrow> (health now, evs)
      | GetEvents \<Rightarrow> (list_events evs, evs)
      | GetEvent eventId \<Rightarrow> (get_event evs eventId, evs)
      | GetAttendees eventId q \<Rightarrow> list_attendees rt eventId q evs
      | PostCheckin eventId body \<Rightarrow> checkin now eventId body evs)"

text \<open>A sequence of requests, each with its clock reading, served in order.\<close>

fun run :: "runtime \<Rightarrow> (jsstring \<times> request) list \<Rightarrow> event list \<Rightarrow> event list" where
  "run rt [] evs = evs"
| "run rt ((now, req) # rest) evs = run rt rest (snd (handle rt now req evs))"

subsection \<open>An engine for the examples\<close>

text \<open>
  To evaluate a handler on a concrete request the built-ins need values. This engine
  covers Basic Latin and the Latin-1 Supplement: the canonical decompositions of the
  accented Latin-1 letters (a base letter and one combining mark), the lower case of
  \<open>A\<close> to \<open>Z\<close> and of the Latin-1 capitals, and a comparison by code units. Other
  code units are left as they are. It is used in examples only; no theorem about the
  handlers depends on it.
\<close>

definition latin1_decomposition :: "(16 word \<times> 16 word \<times> 16 word) list" where
  "latin1_decomposition =
    [(0xC0, 0x41, 0x300), (0xC1, 0x41, 0x301), (0xC2, 0x41, 0x302), (0xC3, 0x41, 0x303),
     (0xC4, 0x41, 0x308), (0xC5, 0x41, 0x30A), (0xC7, 0x43, 0x327), (0xC8, 0x45, 0x300),
     (0xC9, 0x45, 0x301), (0xCA, 0x45, 0x302), (0xCB, 0x45, 0x308), (0xCC, 0x49, 0x300),
     (0xCD, 0x49, 0x301), (0xCE, 0x49, 0x302), (0xCF, 0x49, 0x308), (0xD1, 0x4E, 0x303),
     (0xD2, 0x4F, 0x300), (0xD3, 0x4F, 0x301), (0xD4, 0x4F, 0x302), (0xD5, 0x4F, 0x303),
     (0xD6, 0x4F, 0x308), (0xD9, 0x55, 0x300), (0xDA, 0x55, 0x301), (0xDB, 0x55, 0x302),
     (0xDC, 0x55, 0x308), (0xDD, 0x59, 0x301),
     (0xE0, 0x61, 0x300), (0xE1, 0x61, 0x301), (0xE2, 0x61, 0x302), (0xE3, 0x61, 0x303),
     (0xE4, 0x61, 0x308), (0xE5, 0x61, 0x30A), (0xE7, 0x63, 0x327), (0xE8, 0x65, 0x300),
     (0xE9, 0x65, 0x301), (0xEA, 0x65, 0x302), (0xEB, 0x65, 0x308), (0xEC, 0x69, 0x300),
     (0xED, 0x69, 0x301), (0xEE, 0x69, 0x302), (0xEF, 0x69, 0x308), (0xF1, 0x6E, 0x303),
     (0xF2, 0x6F, 0x300), (0xF3, 0x6F, 0x301), (0xF4, 0x6F, 0x302), (0xF5, 0x6F, 0x303),
     (0xF6, 0x6F, 0x308), (0xF9, 0x75, 0x300), (0xFA, 0x75, 0x301), (0xFB, 0x75, 0x302),
     (0xFC, 0x75, 0x308), (0xFD, 0x79, 0x301), (0xFF, 0x79, 0x308)]"

definition latin1_nfd :: "jsstring \<Rightarrow> jsstring" where
  "latin1_nfd s =
     concat (map (\<lambda>c. if c < 0xC0 then [c]
                      else (case map_of latin1_decomposition c of
                              Some (base, mark) \<Rightarrow> [base, mark]
                            | None \<Rightarrow> [c])) s)"

definition latin1_lower :: "jsstring \<Rightarrow> jsstring" where
  "latin1_lower s =
     map (\<lambda>c. if (0x41 \<le> c \<and> c \<le> 0x5A) \<or> (0xC0 \<le> c \<and> c \<le> 0xDE \<and> c \<noteq> 0xD7)
              then c + 0x20 else c) s"

fun compare_units :: "jsstring \<Rightarrow> jsstring \<Rightarrow> int" where
  "compare_units [] [] = 0"
| "compare_units [] (_ # _) = - 1"
| "compare_units (_ # _) [] = 1"
| "compare_units (x # xs) (y # ys) =
     (if x < y then - 1 else if y < x then 1 else compare_units xs ys)"

definition latin1 :: runtime where
  "latin1 = \<lparr>nfd = latin1_nfd, toLowerCase = latin1_lower, localeCompare = compare_units\<rparr>"

section \<open>Notions of the specification\<close>

text \<open>
  A comparator a sort can rely on: any two values are ordered one way or the other, and
  the order is transitive. \<^verbatim>\<open>localeCompare\<close> is one in every engine.
\<close>

definition consistent :: "('a \<Rightarrow> 'a \<Rightarrow> int) \<Rightarrow> bool" where
  "consistent cmp \<longleftrightarrow>
     (\<forall>x y. cmp x y \<le> 0 \<or> cmp y x \<le> 0) \<and>
     (\<forall>x y z. cmp x y \<le> 0 \<longrightarrow> cmp y z \<le> 0 \<longrightarrow> cmp x z \<le> 0)"

text \<open>
  The attendees of an event a normalized search text keeps, in stored order, and the list
  the route paginates: the kept attendees, sorted (lines 150-165, as functions of the event;
  \<open>list_attendees_eq\<close> below proves that the route computes them).
\<close>

definition matching :: "runtime \<Rightarrow> jsstring \<Rightarrow> event \<Rightarrow> attendee list" where
  "matching rt s e = filter (\<lambda>a. includes_str (search_target rt a) s) (attendees e)"

definition listing :: "runtime \<Rightarrow> jsstring \<Rightarrow> event \<Rightarrow> attendee list" where
  "listing rt s e = sort_by (by_name rt) (matching rt s e)"

text \<open>The offset of the page (line 168) and its end (line 169).\<close>

definition page_start :: "jsnum \<Rightarrow> jsnum \<Rightarrow> jsnum" where
  "page_start p l = js_mul (js_sub p (Num 1)) l"

definition page_end :: "jsnum \<Rightarrow> jsnum \<Rightarrow> jsnum" where
  "page_end p l = js_add (page_start p l) l"

text \<open>
  Two invariants of the store. No stored timestamp is the empty string: a timestamp is
  \<^verbatim>\<open>null\<close> or truthy. And a store is well formed when, besides, no attendee
  identifier is the empty string. The seed is well formed, and every request keeps the
  store so, as long as the clock gives a non-empty string (\<^verbatim>\<open>toISOString\<close> gives
  24 characters or more).
\<close>

definition no_empty_stamp :: "event list \<Rightarrow> bool" where
  "no_empty_stamp evs \<longleftrightarrow> (\<forall>e\<in>set evs. \<forall>a\<in>set (attendees e). checkedInAt a \<noteq> Some [])"

definition well_formed :: "event list \<Rightarrow> bool" where
  "well_formed evs \<longleftrightarrow>
     no_empty_stamp evs \<and> (\<forall>e\<in>set evs. \<forall>a\<in>set (attendees e). attendee_id a \<noteq> [])"

text \<open>
  Between two stores, nothing differs but the check-in timestamp of the attendee at
  position \<open>j\<close> of the event at position \<open>i\<close>, which is now \<open>now\<close>.
\<close>

definition only_stamp_changed ::
  "nat \<Rightarrow> nat \<Rightarrow> jsstring \<Rightarrow> event list \<Rightarrow> event list \<Rightarrow> bool" where
  "only_stamp_changed i j now evs evs' \<longleftrightarrow>
     i < length evs \<and> j < length (attendees (evs ! i)) \<and>
     length evs' = length evs \<and>
     (\<forall>k<length evs. k \<noteq> i \<longrightarrow> evs' ! k = evs ! k) \<and>
     event_id (evs' ! i) = event_id (evs ! i) \<and>
     title (evs' ! i) = title (evs ! i) \<and>
     startsAt (evs' ! i) = startsAt (evs ! i) \<and>
     endsAt (evs' ! i) = endsAt (evs ! i) \<and>
     location (evs' ! i) = location (evs ! i) \<and>
     length (attendees (evs' ! i)) = length (attendees (evs ! i)) \<and>
     (\<forall>k<length (attendees (evs ! i)). k \<noteq> j \<longrightarrow>
        attendees (evs' ! i) ! k = attendees (evs ! i) ! k) \<and>
     attendee_id (attendees (evs' ! i) ! j) = attendee_id (attendees (evs ! i) ! j) \<and>
     name (attendees (evs' ! i) ! j) = name (attendees (evs ! i) ! j) \<and>
     email (attendees (evs' ! i) ! j) = email (attendees (evs ! i) ! j) \<and>
     document (attendees (evs' ! i) ! j) = document (attendees (evs ! i) ! j) \<and>
     checkedInAt (attendees (evs' ! i) ! j) = Some now"

text \<open>The request body \<^verbatim>\<open>{"attendeeId": s}\<close>.\<close>

definition body_of :: "string \<Rightarrow> jsval" where
  "body_of s = JObj [(js ''attendeeId'', JStr (js s))]"

text \<open>
  What the specification asks of an attendee a search for \<open>text\<close> keeps: the
  normalized name, email and document, joined by single spaces, contain the normalized
  text somewhere.
\<close>

definition wanted :: "runtime \<Rightarrow> jsstring \<Rightarrow> attendee \<Rightarrow> bool" where
  "wanted rt text a \<longleftrightarrow>
     (\<exists>before after.
        normalize_text rt (name a) @ [0x20] @ normalize_text rt (email a) @ [0x20] @
        normalize_text rt (document a) =
        before @ normalize_text rt text @ after)"


text \<open>
  The decimal numeral of a number, as a client writes it in a query string.
\<close>

definition digit :: "nat \<Rightarrow> 16 word" where
  "digit d = of_nat (48 + d)"

fun decimal :: "nat \<Rightarrow> jsstring" where
  "decimal n = (if n < 10 then [digit n] else decimal (n div 10) @ [digit (n mod 10)])"

declare decimal.simps [simp del]

section \<open>Lemmas\<close>

subsection \<open>Arrays\<close>

lemma find_index_Some:
  "find_index p xs = Some i \<Longrightarrow> i < length xs \<and> p (xs ! i) \<and> (\<forall>k<i. \<not> p (xs ! k))"
proof (induction xs arbitrary: i)
  case Nil
  then show ?case by simp
next
  case (Cons x xs)
  show ?case
  proof (cases "p x")
    case True
    with Cons.prems show ?thesis by simp
  next
    case False
    with Cons.prems obtain i' where i': "find_index p xs = Some i'" "i = Suc i'"
      by auto
    from Cons.IH [OF i'(1)] False i'(2) show ?thesis
      by (auto simp: nth_Cons split: nat.splits)
  qed
qed

lemma find_index_None: "find_index p xs = None \<longleftrightarrow> (\<forall>x\<in>set xs. \<not> p x)"
  by (induction xs) auto

lemma find_index_cong:
  "length xs = length ys \<Longrightarrow> (\<forall>k<length xs. p (xs ! k) = q (ys ! k)) \<Longrightarrow>
   find_index p xs = find_index q ys"
proof (induction xs arbitrary: ys)
  case Nil
  then show ?case by simp
next
  case (Cons x xs)
  then obtain y ys' where ys: "ys = y # ys'" by (cases ys) auto
  from Cons.prems ys have "p x = q y" by force
  moreover from Cons.prems ys have "\<forall>k<length xs. p (xs ! k) = q (ys' ! k)" by force
  ultimately show ?case using Cons.IH [of ys'] Cons.prems ys by simp
qed

lemma mset_insort_by: "mset (insort_by cmp x xs) = add_mset x (mset xs)"
  by (induction xs) auto

lemma mset_sort_by: "mset (sort_by cmp xs) = mset xs"
  by (induction xs) (auto simp: sort_by_def mset_insort_by)

lemma length_sort_by: "length (sort_by cmp xs) = length xs"
  by (metis mset_sort_by size_mset)

lemma set_sort_by: "set (sort_by cmp xs) = set xs"
  by (metis mset_sort_by set_mset_mset)

lemma sorted_insort_by:
  assumes "consistent cmp" "sorted_wrt (\<lambda>a b. cmp a b \<le> 0) xs"
  shows "sorted_wrt (\<lambda>a b. cmp a b \<le> 0) (insort_by cmp x xs)"
  using assms(2)
proof (induction xs)
  case Nil
  then show ?case by simp
next
  case (Cons y ys)
  show ?case
  proof (cases "cmp x y \<le> 0")
    case True
    have "\<forall>z\<in>set ys. cmp x z \<le> 0"
      using True Cons.prems assms(1) unfolding consistent_def by (metis sorted_wrt.simps(2))
    with True Cons.prems show ?thesis by simp
  next
    case False
    then have "cmp y x \<le> 0" using assms(1) unfolding consistent_def by metis
    with False Cons show ?thesis
      by (auto simp: set_mset_mset [symmetric] mset_insort_by simp del: set_mset_mset)
  qed
qed

lemma sorted_sort_by:
  "consistent cmp \<Longrightarrow> sorted_wrt (\<lambda>a b. cmp a b \<le> 0) (sort_by cmp xs)"
proof (induction xs)
  case Nil
  then show ?case by (simp add: sort_by_def)
next
  case (Cons x xs)
  then have "sorted_wrt (\<lambda>a b. cmp a b \<le> 0) (insort_by cmp x (sort_by cmp xs))"
    by (intro sorted_insort_by) auto
  then show ?case by (simp add: sort_by_def)
qed

lemma js_slice_exact:
  assumes "0 \<le> a" "0 \<le> l"
  shows "js_slice xs (Num a) (Num (a + l)) = take (nat l) (drop (nat a) xs)"
proof (cases "nat a \<le> length xs")
  case True
  with assms have "min (nat (a + l)) (length xs) - nat a = min (nat l) (length xs - nat a)"
    by (simp add: nat_add_distrib) arith
  moreover have "take (min (nat l) (length xs - nat a)) (drop (nat a) xs)
      = take (nat l) (drop (nat a) xs)"
    by (simp add: min_def)
  ultimately show ?thesis using True assms
    by (simp add: js_slice_def min_absorb1)
next
  case False
  with assms show ?thesis by (simp add: js_slice_def)
qed

lemma js_slice_from_beyond:
  assumes "start = PInf \<or> (\<exists>m. start = Num m \<and> int (length xs) \<le> m)"
  shows "js_slice xs start e = []"
  using assms by (auto simp: js_slice_def)

lemma js_slice_to_beyond:
  assumes "0 \<le> a" "e = PInf \<or> (\<exists>m. e = Num m \<and> int (length xs) \<le> m)"
  shows "js_slice xs (Num a) e = drop (nat a) xs"
  using assms by (auto simp: js_slice_def min_def)

lemma includes_str_empty: "includes_str t [] = True"
  by (cases t) auto

subsection \<open>Numbers\<close>

lemma nearest_double_small: "n < 2 ^ 53 \<Longrightarrow> nearest_double n = n"
  by (simp add: nearest_double_def)

lemma nearest_double_big:
  assumes "2 ^ 53 \<le> n"
  shows "2 ^ 53 \<le> nearest_double n"
proof -
  let ?ulp = "(2::int) ^ nat (bitlen n - 53)"
  let ?q = "n div ?ulp"
  let ?m = "(if 2 * (n mod ?ulp) < ?ulp \<or> (2 * (n mod ?ulp) = ?ulp \<and> even ?q)
      then ?q else ?q + 1) * ?ulp"
  from assms have pos: "0 < n" by (rule less_le_trans [rotated]) simp
  from bitlen_bounds [OF pos] have lo: "2 ^ nat (bitlen n - 1) \<le> n" and hi: "n < 2 ^ nat (bitlen n)"
    by simp_all
  from assms hi have "(2::int) ^ 53 < 2 ^ nat (bitlen n)" by linarith
  then have "53 < nat (bitlen n)" by (rule power_less_imp_less_exp [rotated]) simp
  then have b: "nat (bitlen n - 1) = nat (bitlen n - 53) + 52" "1 \<le> nat (bitlen n - 53)"
    by simp_all
  have ulp: "0 < ?ulp" by simp
  from lo b(1) have "2 ^ 52 * ?ulp \<le> n" by (simp add: power_add mult.commute)
  then have "2 ^ 52 * ?ulp div ?ulp \<le> ?q" by (rule zdiv_mono1) (rule ulp)
  then have q: "2 ^ 52 \<le> ?q" by simp
  from b(2) have "(2::int) ^ 1 \<le> ?ulp" by (intro power_increasing) simp_all
  then have "(2::int) ^ 53 \<le> 2 ^ 52 * ?ulp" by simp
  also from q have "2 ^ 52 * ?ulp \<le> ?q * ?ulp" by (intro mult_right_mono) simp_all
  also have "?q * ?ulp \<le> ?m" by (simp add: distrib_right)
  finally have "2 ^ 53 \<le> ?m" .
  moreover from assms have "nearest_double n = ?m"
    by (simp add: nearest_double_def Let_def)
  ultimately show ?thesis by (simp only:)
qed

lemma to_number_cases:
  assumes "0 \<le> n"
  obtains (exact) "n < 2 ^ 53" "to_number n = Num n"
  | (rounded) m where "2 ^ 53 \<le> n" "2 ^ 53 \<le> m" "to_number n = Num m"
  | (infinite) "2 ^ 53 \<le> n" "to_number n = PInf"
proof (cases "n < 2 ^ 53")
  case True
  with assms have "to_number n = Num n"
    by (simp add: to_number_def nearest_double_small)
  with True show ?thesis by (rule exact)
next
  case False
  then have big: "2 ^ 53 \<le> n" by simp
  show ?thesis
  proof (cases "2 ^ 1024 \<le> nearest_double n")
    case True
    with assms have "to_number n = PInf" by (simp add: to_number_def)
    with big show ?thesis by (rule infinite)
  next
    case False
    with assms have "to_number n = Num (nearest_double n)" by (simp add: to_number_def)
    with big nearest_double_big [OF big] show ?thesis by (rule rounded)
  qed
qed

subsection \<open>The attendee route as a function of the store\<close>

text \<open>
  \<^verbatim>\<open>sort\<close> on the array of a stored event would reorder the store; on an array
  of the handler's own it leaves the store alone. The route sorts the latter.
\<close>

lemma array_sort_stored:
  "i < length (store m) \<Longrightarrow>
   attendees (store (array_sort cmp (Stored i) m) ! i) = sort_by cmp (attendees (store m ! i))"
  by (simp add: array_sort_def)

lemma array_sort_local: "store (array_sort cmp (Local k) m) = store m"
  by (simp add: array_sort_def)

text \<open>
  The response of the route, and the store after it, in terms of the event's attendees:
  500 when reading the query throws; otherwise the page is a slice of \<open>listing\<close>, the
  total its length.
\<close>

lemma list_attendees_mem_found:
  assumes "findEvent (store m) eventId = Some i" "read_query rt q = Inr (s, pn, ps)"
  shows "list_attendees_mem rt eventId q m =
     ((200, Attendees
         (js_slice (listing rt s (store m ! i)) (page_start pn ps) (page_end pn ps))
         pn ps (length (listing rt s (store m ! i)))),
      m\<lparr>locals := locals m @
        (if s \<noteq> []
         then [attendees (store m ! i), listing rt s (store m ! i)]
         else [listing rt s (store m ! i)]) @
        [js_slice (listing rt s (store m ! i)) (page_start pn ps) (page_end pn ps)]\<rparr>)"
proof (cases "s = []")
  case True
  then have "matching rt s (store m ! i) = attendees (store m ! i)"
    by (simp add: matching_def includes_str_empty)
  with True assms show ?thesis
    by (simp add: list_attendees_mem_def array_copy_def array_filter_def array_sort_def
        array_slice_def new_array_def listing_def page_start_def page_end_def Let_def
        nth_append)
next
  case False
  with assms show ?thesis
    by (simp add: list_attendees_mem_def array_copy_def array_filter_def array_sort_def
        array_slice_def new_array_def listing_def matching_def page_start_def page_end_def
        Let_def nth_append list_update_append)
qed

lemma list_attendees_eq:
  "list_attendees rt eventId q evs =
     (case findEvent evs eventId of
        None \<Rightarrow> ((404, Error ''Event not found''), evs)
      | Some i \<Rightarrow>
          (case read_query rt q of
             Inl err \<Rightarrow> ((500, Thrown err), evs)
           | Inr (s, pn, ps) \<Rightarrow>
               ((200, Attendees
                   (js_slice (listing rt s (evs ! i)) (page_start pn ps) (page_end pn ps))
                   pn ps (length (listing rt s (evs ! i)))),
                evs)))"
proof (cases "findEvent evs eventId")
  case None
  then show ?thesis by (simp add: list_attendees_def list_attendees_mem_def)
next
  case (Some i)
  show ?thesis
  proof (cases "read_query rt q")
    case (Inl err)
    with Some show ?thesis by (simp add: list_attendees_def list_attendees_mem_def)
  next
    case (Inr r)
    then obtain s pn ps where r: "read_query rt q = Inr (s, pn, ps)" by (cases r) auto
    from Some have "findEvent (store \<lparr>store = evs, locals = []\<rparr>) eventId = Some i" by simp
    from list_attendees_mem_found [OF this r] Some r show ?thesis
      by (simp add: list_attendees_def)
  qed
qed

lemma list_attendees_store: "snd (list_attendees rt eventId q evs) = evs"
  by (simp add: list_attendees_eq split: option.splits sum.splits prod.splits)

subsection \<open>Check-in\<close>

lemma set_checkedInAt_frame:
  "i < length evs \<Longrightarrow> j < length (attendees (evs ! i)) \<Longrightarrow>
   only_stamp_changed i j now evs (set_checkedInAt i j (Some now) evs)"
  by (simp add: only_stamp_changed_def set_checkedInAt_def)

text \<open>What a check-in does, by case.\<close>

lemma checkin_cases:
  obtains
    (not_found) "findEvent evs eventId = None"
      "checkin now eventId body evs = ((404, Error ''Event not found''), evs)"
  | (threw) i err where "findEvent evs eventId = Some i"
      "destructure_attendeeId (js_or body (JObj [])) = Inl err"
      "checkin now eventId body evs = ((500, Thrown err), evs)"
  | (missing) i v where "findEvent evs eventId = Some i"
      "destructure_attendeeId (js_or body (JObj [])) = Inr v" "\<not> truthy v"
      "checkin now eventId body evs = ((400, Error ''attendeeId is required''), evs)"
  | (stranger) i v where "findEvent evs eventId = Some i"
      "destructure_attendeeId (js_or body (JObj [])) = Inr v" "truthy v"
      "find_index (\<lambda>a. JStr (attendee_id a) = v) (attendees (evs ! i)) = None"
      "checkin now eventId body evs = ((422, Error ''Attendee not in this event''), evs)"
  | (conflict) i v j where "findEvent evs eventId = Some i"
      "destructure_attendeeId (js_or body (JObj [])) = Inr v" "truthy v"
      "find_index (\<lambda>a. JStr (attendee_id a) = v) (attendees (evs ! i)) = Some j"
      "stamp_truthy (checkedInAt (attendees (evs ! i) ! j))"
      "checkin now eventId body evs =
         ((409, CheckedIn v (checkedInAt (attendees (evs ! i) ! j))), evs)"
  | (created) i v j where "findEvent evs eventId = Some i"
      "destructure_attendeeId (js_or body (JObj [])) = Inr v" "truthy v"
      "find_index (\<lambda>a. JStr (attendee_id a) = v) (attendees (evs ! i)) = Some j"
      "\<not> stamp_truthy (checkedInAt (attendees (evs ! i) ! j))"
      "checkin now eventId body evs =
         ((201, CheckedIn v (Some now)), set_checkedInAt i j (Some now) evs)"
  unfolding checkin_def
  by (cases "findEvent evs eventId"; cases "destructure_attendeeId (js_or body (JObj []))";
      simp split: option.splits if_splits; fastforce)

lemma destructure_never_throws: "destructure_attendeeId (js_or body (JObj [])) \<noteq> Inl err"
  by (cases body) (auto simp: destructure_attendeeId_def js_or_def split: option.splits)

lemma checkin_never_throws: "fst (fst (checkin now eventId body evs)) \<noteq> 500"
  by (cases now eventId body evs rule: checkin_cases) (simp_all add: destructure_never_throws)

lemma destructure_non_object:
  "\<forall>props. body \<noteq> JObj props \<Longrightarrow> destructure_attendeeId (js_or body (JObj [])) = Inr JUndefined"
  by (cases body) (auto simp: destructure_attendeeId_def js_or_def split: option.splits)

lemma length_set_checkedInAt [simp]: "length (set_checkedInAt i j v evs) = length evs"
  by (simp add: set_checkedInAt_def)

lemma event_id_set_checkedInAt:
  "event_id (set_checkedInAt i j v evs ! k) = event_id (evs ! k)"
  by (cases "k = i"; cases "i < length evs") (simp_all add: set_checkedInAt_def list_update_beyond)

lemma length_attendees_set_checkedInAt:
  "length (attendees (set_checkedInAt i j v evs ! k)) = length (attendees (evs ! k))"
  by (cases "k = i"; cases "i < length evs") (simp_all add: set_checkedInAt_def list_update_beyond)

lemma attendee_id_set_checkedInAt:
  "attendee_id (attendees (set_checkedInAt i j v evs ! k) ! m) =
   attendee_id (attendees (evs ! k) ! m)"
  by (cases "k = i"; cases "i < length evs"; cases "m = j";
      cases "j < length (attendees (evs ! i))")
    (simp_all add: set_checkedInAt_def list_update_beyond)

lemma attendee_set_checkedInAt_other:
  "k \<noteq> i \<or> m \<noteq> j \<Longrightarrow>
   attendees (set_checkedInAt i j v evs ! k) ! m = attendees (evs ! k) ! m"
  by (cases "k = i"; cases "i < length evs") (auto simp: set_checkedInAt_def list_update_beyond)

lemma findEvent_set_checkedInAt:
  "findEvent (set_checkedInAt i j v evs) eventId = findEvent evs eventId"
  unfolding findEvent_def
  by (rule find_index_cong) (simp_all add: event_id_set_checkedInAt)

lemma find_attendee_set_checkedInAt:
  "find_index (\<lambda>a. JStr (attendee_id a) = x) (attendees (set_checkedInAt i j v evs ! k)) =
   find_index (\<lambda>a. JStr (attendee_id a) = x) (attendees (evs ! k))"
  by (rule find_index_cong)
    (simp_all add: length_attendees_set_checkedInAt attendee_id_set_checkedInAt)

text \<open>
  What one request can do to the store: nothing, or the assignment of a check-in to an
  attendee whose timestamp was falsy.
\<close>

lemma handle_store:
  obtains (same) "snd (handle rt now req evs) = evs"
  | (stamped) i j where "i < length evs" "j < length (attendees (evs ! i))"
      "\<not> stamp_truthy (checkedInAt (attendees (evs ! i) ! j))"
      "snd (handle rt now req evs) = set_checkedInAt i j (Some now) evs"
proof (cases req)
  case (PostCheckin eventId body)
  show ?thesis
  proof (cases now eventId body evs rule: checkin_cases)
    case (created i v j)
    from find_index_Some [OF created(4)] find_index_Some [OF created(1) [unfolded findEvent_def]]
    have "i < length evs" "j < length (attendees (evs ! i))" by simp_all
    with created PostCheckin show ?thesis
      by (intro stamped [of i j]) (simp_all add: handle_def)
  qed (use PostCheckin in \<open>auto simp: handle_def intro: same\<close>)
next
  case (GetAttendees eventId q)
  then show ?thesis
    by (intro same) (simp add: handle_def list_attendees_store)
qed (auto simp: handle_def intro: same)

lemma well_formed_set_checkedInAt:
  assumes "well_formed evs" "now \<noteq> []"
  shows "well_formed (set_checkedInAt i j (Some now) evs)"
proof -
  have "attendee_id a \<noteq> [] \<and> checkedInAt a \<noteq> Some []"
    if "e \<in> set (set_checkedInAt i j (Some now) evs)" "a \<in> set (attendees e)" for e a
  proof -
    from that obtain k m where k: "k < length evs" "e = set_checkedInAt i j (Some now) evs ! k"
      and m: "m < length (attendees e)" "a = attendees e ! m"
      by (metis in_set_conv_nth length_set_checkedInAt)
    from k m have m': "m < length (attendees (evs ! k))"
      by (simp add: length_attendees_set_checkedInAt)
    with k assms(1) have old: "attendee_id (attendees (evs ! k) ! m) \<noteq> []"
       "checkedInAt (attendees (evs ! k) ! m) \<noteq> Some []"
      unfolding well_formed_def no_empty_stamp_def by (metis nth_mem)+
    show ?thesis
    proof (cases "k = i \<and> m = j")
      case True
      with k m m' old assms(2) show ?thesis
        using attendee_id_set_checkedInAt [of i j "Some now" evs k m]
        by (simp add: set_checkedInAt_def)
    next
      case False
      with k m old show ?thesis
        using attendee_set_checkedInAt_other [of k i m j "Some now" evs] by auto
    qed
  qed
  then show ?thesis unfolding well_formed_def no_empty_stamp_def by blast
qed

lemma well_formed_handle:
  "well_formed evs \<Longrightarrow> now \<noteq> [] \<Longrightarrow> well_formed (snd (handle rt now req evs))"
  by (cases rt now req evs rule: handle_store) (simp_all add: well_formed_set_checkedInAt)

lemma well_formed_run:
  "well_formed evs \<Longrightarrow> \<forall>c\<in>set calls. fst c \<noteq> [] \<Longrightarrow> well_formed (run rt calls evs)"
  by (induction calls arbitrary: evs) (auto simp: well_formed_handle)

lemma well_formed_events: "well_formed events"
  unfolding well_formed_def no_empty_stamp_def events_def by (simp add: js_def)

lemma well_formed_no_empty_stamp: "well_formed evs \<Longrightarrow> no_empty_stamp evs"
  by (simp add: well_formed_def)

text \<open>Requests change neither what an identifier finds nor an attendee that is checked in.\<close>

lemma handle_keeps:
  assumes "stamp_truthy (checkedInAt (attendees (evs ! i) ! j))"
  shows "attendees (snd (handle rt now req evs) ! i) ! j = attendees (evs ! i) ! j"
    and "findEvent (snd (handle rt now req evs)) eventId = findEvent evs eventId"
    and "find_index (\<lambda>a. JStr (attendee_id a) = x) (attendees (snd (handle rt now req evs) ! k)) =
         find_index (\<lambda>a. JStr (attendee_id a) = x) (attendees (evs ! k))"
proof -
  show "attendees (snd (handle rt now req evs) ! i) ! j = attendees (evs ! i) ! j"
  proof (cases rt now req evs rule: handle_store)
    case (stamped i' j')
    with assms have "i \<noteq> i' \<or> j \<noteq> j'" by auto
    with stamped(4) show ?thesis by (simp add: attendee_set_checkedInAt_other)
  qed simp
  show "findEvent (snd (handle rt now req evs)) eventId = findEvent evs eventId"
    by (cases rt now req evs rule: handle_store) (simp_all add: findEvent_set_checkedInAt)
  show "find_index (\<lambda>a. JStr (attendee_id a) = x) (attendees (snd (handle rt now req evs) ! k)) =
         find_index (\<lambda>a. JStr (attendee_id a) = x) (attendees (evs ! k))"
    by (cases rt now req evs rule: handle_store) (simp_all add: find_attendee_set_checkedInAt)
qed

lemma run_keeps:
  assumes "stamp_truthy (checkedInAt (attendees (evs ! i) ! j))"
  shows "attendees (run rt calls evs ! i) ! j = attendees (evs ! i) ! j"
  using assms
proof (induction calls arbitrary: evs)
  case Nil
  then show ?case by simp
next
  case (Cons c calls)
  obtain now req where c: "c = (now, req)" by (cases c)
  from handle_keeps(1) [OF Cons.prems, of rt now req]
  have *: "attendees (snd (handle rt now req evs) ! i) ! j = attendees (evs ! i) ! j" .
  with Cons.prems have "stamp_truthy (checkedInAt (attendees (snd (handle rt now req evs) ! i) ! j))"
    by simp
  from Cons.IH [OF this] * c show ?case by simp
qed

lemma stamp_truthy_iff:
  "t \<noteq> Some [] \<Longrightarrow> stamp_truthy t \<longleftrightarrow> t \<noteq> None"
  by (cases t) (simp_all add: stamp_truthy_def)

subsection \<open>Pages\<close>

lemma Math_max_one:
  "Math_max x (Num 1) =
     (case x of Num a \<Rightarrow> Num (max a 1) | PInf \<Rightarrow> PInf | NInf \<Rightarrow> Num 1 | NaN \<Rightarrow> NaN)"
  by (cases x) (simp_all add: Math_max_def max_def)

lemma Math_max_one_cases:
  obtains (num) p where "Math_max x (Num 1) = Num p" "1 \<le> p"
  | (inf) "Math_max x (Num 1) = PInf"
  | (nan) "Math_max x (Num 1) = NaN"
  by (cases x) (simp_all add: Math_max_one)

lemma read_query_Inr:
  "read_query rt q = Inr (s, pn, ps) \<longleftrightarrow>
     search_text rt q = Inr s \<and> page_number q = Inr pn \<and> page_size q = Inr ps"
  by (auto simp: read_query_def split: sum.splits)

lemma page_number_cases:
  assumes "page_number q = Inr pn"
  obtains (num) p where "pn = Num p" "1 \<le> p"
  | (inf) "pn = PInf"
  | (nan) "pn = NaN"
proof -
  from assms obtain x where "pn = Math_max x (Num 1)"
    by (auto simp: page_number_def split: sum.splits)
  then show ?thesis
    by (cases x rule: Math_max_one_cases) (auto intro: num inf nan)
qed

lemma page_size_cases:
  assumes "page_size q = Inr ps"
  obtains (num) l where "ps = Num l" "1 \<le> l"
  | (inf) "ps = PInf"
  | (nan) "ps = NaN"
proof -
  from assms obtain x where "ps = Math_max x (Num 1)"
    by (auto simp: page_size_def split: sum.splits)
  then show ?thesis
    by (cases x rule: Math_max_one_cases) (auto intro: num inf nan)
qed

text \<open>
  The slice of a page of integers, computed in doubles, is the slice the integers
  describe: where a product or a sum is rounded, it is beyond the end of every array.
\<close>

lemma page_slice:
  assumes "1 \<le> p" "1 \<le> l" "int (length xs) < 2 ^ 53"
  shows "js_slice xs (page_start (Num p) (Num l)) (page_end (Num p) (Num l)) =
     take (nat l) (drop (nat ((p - 1) * l)) xs)"
proof -
  let ?P = "(p - 1) * l"
  from assms(1,2) have P: "0 \<le> ?P" "0 \<le> p - 1" by simp_all
  have sub: "js_sub (Num p) (Num 1) = to_number (p - 1)"
    by (simp add: js_sub_def)
  have far: ?thesis
    if "2 ^ 53 \<le> ?P"
      and "page_start (Num p) (Num l) = PInf \<or>
           (\<exists>m. page_start (Num p) (Num l) = Num m \<and> 2 ^ 53 \<le> m)"
  proof -
    from that(2) assms(3)
    have "page_start (Num p) (Num l) = PInf \<or>
        (\<exists>m. page_start (Num p) (Num l) = Num m \<and> int (length xs) \<le> m)"
      by force
    then have "js_slice xs (page_start (Num p) (Num l)) (page_end (Num p) (Num l)) = []"
      by (rule js_slice_from_beyond)
    moreover from that(1) assms(3) have "length xs \<le> nat ?P" by linarith
    ultimately show ?thesis by simp
  qed
  from P(2) show ?thesis
  proof (cases "p - 1" rule: to_number_cases)
    case exact
    with sub have start: "page_start (Num p) (Num l) = to_number ?P"
      by (simp add: page_start_def)
    from P(1) show ?thesis
    proof (cases ?P rule: to_number_cases)
      case exact
      with start have s: "page_start (Num p) (Num l) = Num ?P" by simp
      then have e: "page_end (Num p) (Num l) = to_number (?P + l)"
        by (simp add: page_end_def)
      from P(1) assms(2) have "0 \<le> ?P + l" by simp
      then show ?thesis
      proof (cases "?P + l" rule: to_number_cases)
        case exact
        with s e js_slice_exact [of ?P l xs] P(1) assms(2) show ?thesis by simp
      next
        case (rounded m)
        with e assms(3) have "page_end (Num p) (Num l) = PInf \<or>
            (\<exists>m. page_end (Num p) (Num l) = Num m \<and> int (length xs) \<le> m)"
          by force
        from js_slice_to_beyond [OF P(1) this] s
        have "js_slice xs (page_start (Num p) (Num l)) (page_end (Num p) (Num l)) =
            drop (nat ?P) xs"
          by simp
        moreover from rounded(1) assms(3) P(1) have "length xs - nat ?P \<le> nat l" by linarith
        ultimately show ?thesis by simp
      next
        case infinite
        with e have "page_end (Num p) (Num l) = PInf \<or>
            (\<exists>m. page_end (Num p) (Num l) = Num m \<and> int (length xs) \<le> m)"
          by simp
        from js_slice_to_beyond [OF P(1) this] s
        have "js_slice xs (page_start (Num p) (Num l)) (page_end (Num p) (Num l)) =
            drop (nat ?P) xs"
          by simp
        moreover from infinite(1) assms(3) P(1) have "length xs - nat ?P \<le> nat l" by linarith
        ultimately show ?thesis by simp
      qed
    next
      case (rounded m)
      with start show ?thesis by (intro far) simp_all
    next
      case infinite
      with start show ?thesis by (intro far) simp_all
    qed
  next
    case (rounded a)
    from rounded(1) assms(2) have big: "2 ^ 53 \<le> ?P"
      by (metis mult.right_neutral mult_left_mono order_trans P(2))
    from rounded(2) assms(2) have "2 ^ 53 \<le> a * l" "0 \<le> a * l"
      by (metis mult.right_neutral mult_left_mono order_trans zero_le_numeral zero_le_power,
          simp)
    from this(2) this(1) have "to_number (a * l) = PInf \<or> (\<exists>m. to_number (a * l) = Num m \<and> 2 ^ 53 \<le> m)"
      by (cases "a * l" rule: to_number_cases) simp_all
    with sub rounded(3) show ?thesis
      by (intro far [OF big]) (simp add: page_start_def)
  next
    case infinite
    from infinite(1) assms(2) have big: "2 ^ 53 \<le> ?P"
      by (metis mult.right_neutral mult_left_mono order_trans P(2))
    from sub infinite(2) assms(2) have "page_start (Num p) (Num l) = PInf"
      by (simp add: page_start_def)
    then show ?thesis by (intro far [OF big]) simp
  qed
qed

lemma page_slice_finite:
  assumes "page_number q = Inr (Num p)" "page_size q = Inr (Num l)"
    and "int (length xs) < 2 ^ 53"
  shows "1 \<le> p" "1 \<le> l"
    "js_slice xs (page_start (Num p) (Num l)) (page_end (Num p) (Num l)) =
       take (nat l) (drop (nat ((p - 1) * l)) xs)"
proof -
  from assms(1) show p: "1 \<le> p" by (cases rule: page_number_cases) simp_all
  from assms(2) show l: "1 \<le> l" by (cases rule: page_size_cases) simp_all
  from p l assms(3)
  show "js_slice xs (page_start (Num p) (Num l)) (page_end (Num p) (Num l)) =
       take (nat l) (drop (nat ((p - 1) * l)) xs)"
    by (rule page_slice)
qed

lemma js_mul_NaN [simp]: "js_mul x NaN = NaN"
  by (cases x) simp_all

lemma js_add_NaN [simp]: "js_add x NaN = NaN"
  by (cases x) simp_all



lemma length_listing: "length (listing rt s e) = length (matching rt s e)"
  by (simp add: listing_def length_sort_by)

text \<open>The three answers of the route on an existing event.\<close>

lemma attendees_response:
  assumes "findEvent evs eventId = Some i" "read_query rt q = Inr (s, pn, ps)"
  shows "fst (list_attendees rt eventId q evs) =
     (200, Attendees
        (js_slice (listing rt s (evs ! i)) (page_start pn ps) (page_end pn ps))
        pn ps (length (matching rt s (evs ! i))))"
  using assms by (simp add: list_attendees_eq length_listing)

lemma attendees_thrown:
  assumes "findEvent evs eventId = Some i" "read_query rt q = Inl err"
  shows "fst (list_attendees rt eventId q evs) = (500, Thrown err)"
  using assms by (simp add: list_attendees_eq)

lemma attendees_data:
  assumes "fst (list_attendees rt eventId q evs) = (st, Attendees d pn ps t)"
  obtains i s where "findEvent evs eventId = Some i" "read_query rt q = Inr (s, pn, ps)"
    "st = 200" "d = js_slice (listing rt s (evs ! i)) (page_start pn ps) (page_end pn ps)"
    "t = length (matching rt s (evs ! i))"
  using assms
  by (auto simp: list_attendees_eq length_listing split: option.splits sum.splits)

lemma starts_with_iff: "starts_with t s \<longleftrightarrow> (\<exists>after. t = s @ after)"
  by (induction t s rule: starts_with.induct) auto

lemma includes_str_iff: "includes_str t s \<longleftrightarrow> (\<exists>before after. t = before @ s @ after)"
proof (induction t)
  case Nil
  then show ?case by simp
next
  case (Cons x xs)
  have "(\<exists>before after. x # xs = before @ s @ after) \<longleftrightarrow>
        (\<exists>after. x # xs = s @ after) \<or> (\<exists>before after. xs = before @ s @ after)"
    (is "?l \<longleftrightarrow> ?r")
  proof
    assume ?l
    then obtain before after where *: "x # xs = before @ s @ after" by blast
    show ?r
    proof (cases before)
      case Nil
      with * show ?thesis by auto
    next
      case (Cons b bs)
      with * have "xs = bs @ s @ after" by simp
      then show ?thesis by blast
    qed
  next
    assume ?r
    then show ?l
    proof
      assume "\<exists>after. x # xs = s @ after"
      then obtain after where "x # xs = [] @ s @ after" by auto
      then show ?l by blast
    next
      assume "\<exists>before after. xs = before @ s @ after"
      then obtain before after where "x # xs = (x # before) @ s @ after" by auto
      then show ?l by blast
    qed
  qed
  with Cons.IH show ?case by (simp add: starts_with_iff)
qed

lemma matching_wanted:
  "matching rt (normalize_text rt text) e = filter (wanted rt text) (attendees e)"
  unfolding matching_def
  by (rule filter_cong) (simp_all add: includes_str_iff wanted_def search_target_def js_def)

lemma mset_js_slice: "mset (js_slice xs a b) \<subseteq># mset xs"
proof -
  have "mset (take n (drop k xs)) \<subseteq># mset xs" for n k
  proof -
    have "mset (take n (drop k xs)) \<subseteq># mset (drop k xs)"
      by (metis append_take_drop_id mset_append mset_subset_eq_add_left)
    also have "\<dots> \<subseteq># mset xs"
      by (metis append_take_drop_id mset_append mset_subset_eq_add_right)
    finally show ?thesis .
  qed
  then show ?thesis by (simp add: js_slice_def Let_def)
qed

lemma mset_listing:
  "mset (listing rt (normalize_text rt text) e) = mset (filter (wanted rt text) (attendees e))"
  by (simp add: listing_def mset_sort_by matching_wanted)

lemma consistent_by_name: "consistent (localeCompare rt) \<Longrightarrow> consistent (by_name rt)"
  unfolding consistent_def by_name_def by blast

lemma sorted_js_slice: "sorted_wrt r xs \<Longrightarrow> sorted_wrt r (js_slice xs a b)"
  by (simp add: js_slice_def Let_def sorted_wrt_take sorted_wrt_drop)


text \<open>
  \<^verbatim>\<open>parseInt\<close> reads a decimal numeral as the number it writes. So every page
  number and every page size from 1 up to \<open>2^53\<close> can be asked for.
\<close>

lemma digit_unit:
  assumes "d < 10"
  shows "is_digit (digit d)" "uint (digit d) - 0x30 = int d"
proof -
  from assms have "d \<in> {0, 1, 2, 3, 4, 5, 6, 7, 8, 9}" by auto
  then show "is_digit (digit d)" "uint (digit d) - 0x30 = int d"
    by (auto simp: is_digit_def digit_def)
qed

lemma digit_not_space_or_sign:
  assumes "is_digit c"
  shows "\<not> is_white_space c" "c \<noteq> 0x2B" "c \<noteq> 0x2D"
  using assms by (auto simp: is_digit_def is_white_space_def word_le_nat_alt)

lemma decimal_digits: "\<forall>c\<in>set (decimal n). is_digit c"
  by (induction n rule: decimal.induct) (subst decimal.simps, auto simp: digit_unit)

lemma decimal_not_empty: "decimal n \<noteq> []"
  by (subst decimal.simps) simp

lemma digits_value_snoc: "digits_value (ds @ [c]) = 10 * digits_value ds + (uint c - 0x30)"
  by (simp add: digits_value_def)

lemma digits_value_decimal: "digits_value (decimal n) = int n"
proof (induction n rule: decimal.induct)
  case (1 n)
  show ?case
  proof (cases "n < 10")
    case True
    then show ?thesis
      by (subst decimal.simps) (simp add: digits_value_def digit_unit)
  next
    case False
    with 1 have "digits_value (decimal (n div 10)) = int (n div 10)" by simp
    moreover have "10 * int (n div 10) + int (n mod 10) = int n"
      by (simp add: zdiv_int zmod_int)
    ultimately show ?thesis using False
      by (subst decimal.simps) (simp add: digits_value_snoc digit_unit)
  qed
qed

lemma parseInt_decimal: "parseInt (decimal n) = to_number (int n)"
proof -
  obtain c cs where d: "decimal n = c # cs" using decimal_not_empty [of n] by (cases "decimal n") auto
  with decimal_digits [of n] have c: "is_digit c" by simp
  then have "\<not> is_white_space c" "c \<noteq> 0x2B" "c \<noteq> 0x2D"
    by (rule digit_not_space_or_sign)+
  moreover have "takeWhile is_digit (decimal n) = decimal n"
    using decimal_digits [of n] by simp
  ultimately show ?thesis
    using d by (simp add: parseInt_def Let_def digits_value_decimal [symmetric])
qed

lemma page_number_decimal:
  assumes "1 \<le> p" "int p < 2 ^ 53"
  shows "page_number (q\<lparr>page := Some (QStr (decimal p))\<rparr>) = Inr (Num (int p))"
    and "page_size (q\<lparr>limit := Some (QStr (decimal p))\<rparr>) = Inr (Num (int p))"
  using assms decimal_not_empty [of p]
  by (simp_all add: page_number_def page_size_def q_or_def parseInt_decimal to_number_def
      nearest_double_small Math_max_one)

subsection \<open>The engine of the examples\<close>

lemma compare_units_total: "compare_units x y \<le> 0 \<or> compare_units y x \<le> 0"
  by (induction x y rule: compare_units.induct) auto

lemma compare_units_trans:
  "compare_units x y \<le> 0 \<Longrightarrow> compare_units y z \<le> 0 \<Longrightarrow> compare_units x z \<le> 0"
proof (induction x y arbitrary: z rule: compare_units.induct)
  case 1
  then show ?case by simp
next
  case (2 y ys)
  then show ?case by (cases z) simp_all
next
  case (3 x xs)
  then show ?case by simp
next
  case (4 x xs y ys)
  show ?case
  proof (cases z)
    case Nil
    with 4 show ?thesis by (simp split: if_splits)
  next
    case (Cons c cs)
    with 4 show ?thesis by (auto split: if_splits)
  qed
qed

lemma consistent_latin1: "consistent (localeCompare latin1)"
  unfolding consistent_def latin1_def
  using compare_units_total compare_units_trans by auto

subsection \<open>The page parameters at their edges\<close>

text \<open>
  An absent or empty parameter takes its default. A page size of 309 nines is beyond
  the doubles: it reads as Infinity, the offset \<open>0 * Infinity\<close> of the first page is
  NaN, and the page is empty. A page number beyond \<open>2^53\<close> is echoed as the double
  nearest to it. A parameter that is an object with a property \<^verbatim>\<open>toString\<close>
  throws, and the answer is 500.
\<close>

lemma page_defaults:
  "page_number \<lparr>search = s, page = None, limit = l\<rparr> = Inr (Num 1)"
  "page_number \<lparr>search = s, page = Some (QStr []), limit = l\<rparr> = Inr (Num 1)"
  "page_size \<lparr>search = s, page = p, limit = None\<rparr> = Inr (Num 20)"
  "page_size \<lparr>search = s, page = p, limit = Some (QStr [])\<rparr> = Inr (Num 20)"
  by (simp_all add: page_number_def page_size_def q_or_def) code_simp+

lemma limit_beyond_doubles:
  "page_size \<lparr>search = None, page = None, limit = Some (QStr (replicate 309 0x39))\<rparr> =
     Inr PInf \<and>
   fst (list_attendees latin1 (js ''evt_123'')
     \<lparr>search = None, page = None, limit = Some (QStr (replicate 309 0x39))\<rparr> events) =
     (200, Attendees [] (Num 1) PInf 3)"
  by code_simp

lemma page_beyond_exact_integers:
  "page_number \<lparr>search = None, page = Some (QStr (js ''9007199254740993'')), limit = None\<rparr> =
     Inr (Num 9007199254740992)"
  by code_simp

lemma page_with_own_toString:
  "page_number \<lparr>search = None,
      page = Some (QObj [(js ''toString'', QStr (js ''1''))]), limit = None\<rparr> = Inl TypeError \<and>
   fst (list_attendees latin1 (js ''evt_123'')
     \<lparr>search = None, page = Some (QObj [(js ''toString'', QStr (js ''1''))]), limit = None\<rparr>
     events) = (500, Thrown TypeError)"
  by code_simp

section \<open>The properties\<close>

subsection \<open>Check-in is final\<close>

text \<open>
  C1. Once an attendee's check-in timestamp is set, no later request changes it (nor
  anything else of the attendee), whatever the requests and their order; and every
  check-in call that resolves to that attendee answers 409 Conflict with the original
  timestamp and leaves the whole store as it is. The store is any well-formed one, so
  also any store the service can reach from its seed.
\<close>

theorem checked_in_is_final:
  assumes "well_formed evs" "i < length evs" "j < length (attendees (evs ! i))"
    and "checkedInAt (attendees (evs ! i) ! j) = Some t"
  shows "attendees (run rt calls evs ! i) ! j = attendees (evs ! i) ! j \<and>
     (\<forall>now eventId body v.
        findEvent (run rt calls evs) eventId = Some i \<and>
        destructure_attendeeId (js_or body (JObj [])) = Inr v \<and>
        find_index (\<lambda>a. JStr (attendee_id a) = v) (attendees (run rt calls evs ! i)) = Some j \<longrightarrow>
        checkin now eventId body (run rt calls evs) =
          ((409, CheckedIn v (Some t)), run rt calls evs))"
proof -
  let ?a = "attendees (evs ! i) ! j"
  let ?evs = "run rt calls evs"
  from assms(2,3) have "evs ! i \<in> set evs" "?a \<in> set (attendees (evs ! i))" by simp_all
  with assms(1) have ok: "attendee_id ?a \<noteq> []" "checkedInAt ?a \<noteq> Some []"
    unfolding well_formed_def no_empty_stamp_def by blast+
  with assms(4) have truthy: "stamp_truthy (checkedInAt ?a)"
    by (simp add: stamp_truthy_def)
  have same: "attendees (?evs ! i) ! j = ?a"
    by (rule run_keeps [OF truthy])
  have "checkin now eventId body ?evs = ((409, CheckedIn v (Some t)), ?evs)"
    if found: "findEvent ?evs eventId = Some i"
      and v: "destructure_attendeeId (js_or body (JObj [])) = Inr v"
      and j: "find_index (\<lambda>a. JStr (attendee_id a) = v) (attendees (?evs ! i)) = Some j"
    for now eventId body v
  proof -
    from find_index_Some [OF j] same have "v = JStr (attendee_id ?a)" by simp
    with ok have "truthy v" by simp
    with found v j same truthy assms(4) show ?thesis
      by (cases now eventId body ?evs rule: checkin_cases) simp_all
  qed
  with same show ?thesis by blast
qed

theorem checked_in_is_final_witness:
  "well_formed events \<and>
   checkedInAt (attendees (events ! 0) ! 2) = Some (js ''2025-09-15T09:32:12-03:00'') \<and>
   attendees (run latin1
       [(js ''2025-11-03T10:00:00.000Z'', PostCheckin (js ''evt_123'') (body_of ''att_003'')),
        (js ''2025-11-03T10:00:01.000Z'', PostCheckin (js ''evt_123'') (body_of ''att_001''))]
       events ! 0) ! 2 = attendees (events ! 0) ! 2 \<and>
   fst (checkin (js ''2025-11-03T10:00:02.000Z'') (js ''evt_123'') (body_of ''att_003'')
     (run latin1
       [(js ''2025-11-03T10:00:00.000Z'', PostCheckin (js ''evt_123'') (body_of ''att_003'')),
        (js ''2025-11-03T10:00:01.000Z'', PostCheckin (js ''evt_123'') (body_of ''att_001''))]
       events)) =
     (409, CheckedIn (JStr (js ''att_003'')) (Some (js ''2025-09-15T09:32:12-03:00'')))"
proof -
  let ?calls = "[(js ''2025-11-03T10:00:00.000Z'', PostCheckin (js ''evt_123'') (body_of ''att_003'')),
        (js ''2025-11-03T10:00:01.000Z'', PostCheckin (js ''evt_123'') (body_of ''att_001''))]"
  have r: "0 < length events" "2 < length (attendees (events ! 0))"
    by (simp_all add: events_def)
  have s: "checkedInAt (attendees (events ! 0) ! 2) = Some (js ''2025-09-15T09:32:12-03:00'')"
    by (simp add: events_def)
  have f: "findEvent (run latin1 ?calls events) (js ''evt_123'') = Some 0"
    by code_simp
  have d: "destructure_attendeeId (js_or (body_of ''att_003'') (JObj [])) = Inr (JStr (js ''att_003''))"
    by code_simp
  have a: "find_index (\<lambda>a. JStr (attendee_id a) = JStr (js ''att_003''))
      (attendees (run latin1 ?calls events ! 0)) = Some 2"
    by code_simp
  note final = checked_in_is_final [OF well_formed_events r s, of latin1 ?calls]
  from final have k: "attendees (run latin1 ?calls events ! 0) ! 2 = attendees (events ! 0) ! 2"
    by (rule conjunct1)
  from final f d a
  have "checkin (js ''2025-11-03T10:00:02.000Z'') (js ''evt_123'') (body_of ''att_003'')
      (run latin1 ?calls events) =
    ((409, CheckedIn (JStr (js ''att_003'')) (Some (js ''2025-09-15T09:32:12-03:00''))),
     run latin1 ?calls events)"
    by blast
  with k s well_formed_events show ?thesis by simp
qed

subsection \<open>Check-in without an attendee identifier\<close>

text \<open>
  C2. A check-in whose body lacks the attendee identifier is not always a 400: the
  handler looks the event up first, and an unknown event answers 404 whatever the
  body. Here the identifier is missing and the event unknown.
\<close>

theorem missing_id_unknown_event:
  "destructure_attendeeId (js_or (JObj []) (JObj [])) = Inr JUndefined \<and>
   \<not> truthy JUndefined \<and>
   findEvent events (js ''does_not_exist'') = None \<and>
   checkin (js ''2025-11-03T10:00:00.000Z'') (js ''does_not_exist'') (JObj []) events =
     ((404, Error ''Event not found''), events) \<and>
   fst (fst (checkin (js ''2025-11-03T10:00:00.000Z'') (js ''does_not_exist'') (JObj []) events))
     \<noteq> 400"
proof -
  have "findEvent events (js ''does_not_exist'') = None"
    by code_simp
  then show ?thesis
    by (simp add: checkin_def destructure_attendeeId_def js_or_def)
qed

text \<open>
  C2, as the handler has it. When the attendee identifier is missing from the body
  (absent, or a falsy value such as \<^verbatim>\<open>null\<close> or the empty string), the check-in
  answers 400 BadRequest if the event exists and 404 NotFound if it does not; the store
  is unchanged either way.
\<close>

theorem missing_id_is_bad_request:
  assumes "destructure_attendeeId (js_or body (JObj [])) = Inr v" "\<not> truthy v"
  shows "checkin now eventId body evs =
     (if findEvent evs eventId = None then ((404, Error ''Event not found''), evs)
      else ((400, Error ''attendeeId is required''), evs))"
  using assms by (cases now eventId body evs rule: checkin_cases) simp_all

theorem missing_id_is_bad_request_witness:
  "destructure_attendeeId (js_or (JObj [(js ''name'', JStr (js ''Ana''))]) (JObj [])) = Inr JUndefined \<and>
   \<not> truthy JUndefined \<and>
   findEvent events (js ''evt_123'') \<noteq> None \<and>
   checkin (js ''2025-11-03T10:00:00.000Z'') (js ''evt_123'')
     (JObj [(js ''name'', JStr (js ''Ana''))]) events =
     ((400, Error ''attendeeId is required''), events)"
proof -
  have d: "destructure_attendeeId (js_or (JObj [(js ''name'', JStr (js ''Ana''))]) (JObj []))
      = Inr JUndefined"
    by code_simp
  have t: "\<not> truthy JUndefined" by simp
  have f: "findEvent events (js ''evt_123'') \<noteq> None" by code_simp
  from missing_id_is_bad_request [OF d t, of "js ''2025-11-03T10:00:00.000Z''" "js ''evt_123''" events]
    d f show ?thesis by simp
qed

text \<open>
  C10. On an existing event, a check-in whose body is not an object (\<^verbatim>\<open>undefined\<close>,
  \<^verbatim>\<open>null\<close>, or any other value that is not an object) throws nothing: the
  destructuring gives \<^verbatim>\<open>undefined\<close> for the identifier, the answer is 400
  BadRequest and the store is unchanged.
\<close>

theorem checkin_without_body:
  assumes "findEvent evs eventId = Some i" "\<forall>props. body \<noteq> JObj props"
  shows "destructure_attendeeId (js_or body (JObj [])) = Inr JUndefined \<and>
     checkin now eventId body evs = ((400, Error ''attendeeId is required''), evs)"
proof -
  from assms(2) have d: "destructure_attendeeId (js_or body (JObj [])) = Inr JUndefined"
    by (rule destructure_non_object)
  with assms(1) show ?thesis
    by (cases now eventId body evs rule: checkin_cases) simp_all
qed

theorem checkin_without_body_witness:
  "findEvent events (js ''evt_456'') = Some 1 \<and>
   checkin (js ''2025-11-03T10:00:00.000Z'') (js ''evt_456'') JUndefined events =
     ((400, Error ''attendeeId is required''), events) \<and>
   checkin (js ''2025-11-03T10:00:00.000Z'') (js ''evt_456'') JNull events =
     ((400, Error ''attendeeId is required''), events)"
proof -
  have f: "findEvent events (js ''evt_456'') = Some 1" by code_simp
  have u: "\<forall>props. JUndefined \<noteq> JObj props" and n: "\<forall>props. JNull \<noteq> JObj props"
    by simp_all
  from checkin_without_body [OF f u, of "js ''2025-11-03T10:00:00.000Z''"]
    checkin_without_body [OF f n, of "js ''2025-11-03T10:00:00.000Z''"] f
  show ?thesis by simp
qed

subsection \<open>What changes the store\<close>

text \<open>
  C9. Check-in is the only request that changes the store. A request answered 201 is a
  check-in, and the store after it differs from the store before in nothing but the
  timestamp of the attendee the request names: the other fields of that attendee, the
  other attendees and the other events are the same. Every request not answered 201,
  and every request of the four querying routes, leaves the store as it is, the order of
  the stored attendees included.
\<close>

theorem checkin_is_the_only_mutation:
  "(fst (fst (handle rt now req evs)) = 201 \<longrightarrow>
      (\<exists>eventId body i j.
         req = PostCheckin eventId body \<and> findEvent evs eventId = Some i \<and>
         find_index (\<lambda>a. Inr (JStr (attendee_id a)) = destructure_attendeeId (js_or body (JObj [])))
           (attendees (evs ! i)) = Some j \<and>
         only_stamp_changed i j now evs (snd (handle rt now req evs)))) \<and>
   (fst (fst (handle rt now req evs)) \<noteq> 201 \<longrightarrow> snd (handle rt now req evs) = evs) \<and>
   ((\<forall>eventId body. req \<noteq> PostCheckin eventId body) \<longrightarrow> snd (handle rt now req evs) = evs)"
proof (cases req)
  case (PostCheckin eventId body)
  show ?thesis
  proof (cases now eventId body evs rule: checkin_cases)
    case (created i v j)
    from find_index_Some [OF created(4)] find_index_Some [OF created(1) [unfolded findEvent_def]]
    have "i < length evs" "j < length (attendees (evs ! i))" by simp_all
    then have "only_stamp_changed i j now evs (set_checkedInAt i j (Some now) evs)"
      by (rule set_checkedInAt_frame)
    with created PostCheckin show ?thesis
      by (simp add: handle_def)
  qed (use PostCheckin in \<open>simp_all add: handle_def\<close>)
next
  case (GetAttendees eventId q)
  then show ?thesis
    by (simp add: handle_def list_attendees_eq split: option.splits sum.splits prod.splits)
qed (simp_all add: handle_def health_def list_events_def get_event_def split: option.splits)

theorem checkin_is_the_only_mutation_witness:
  "fst (fst (handle latin1 (js ''2025-11-03T10:00:00.000Z'')
       (PostCheckin (js ''evt_456'') (body_of ''att_101'')) events)) = 201 \<and>
   only_stamp_changed 1 0 (js ''2025-11-03T10:00:00.000Z'') events
     (snd (handle latin1 (js ''2025-11-03T10:00:00.000Z'')
        (PostCheckin (js ''evt_456'') (body_of ''att_101'')) events)) \<and>
   fst (fst (handle latin1 (js ''2025-11-03T10:00:00.000Z'')
       (GetAttendees (js ''evt_123'') \<lparr>search = Some (QStr (js ''a'')), page = None, limit = None\<rparr>)
       events)) = 200 \<and>
   snd (handle latin1 (js ''2025-11-03T10:00:00.000Z'')
       (GetAttendees (js ''evt_123'') \<lparr>search = Some (QStr (js ''a'')), page = None, limit = None\<rparr>)
       events) = events"
proof -
  let ?now = "js ''2025-11-03T10:00:00.000Z''"
  let ?post = "PostCheckin (js ''evt_456'') (body_of ''att_101'')"
  let ?get = "GetAttendees (js ''evt_123'')
    \<lparr>search = Some (QStr (js ''a'')), page = None, limit = None\<rparr>"
  have created: "fst (fst (handle latin1 ?now ?post events)) = 201"
    by code_simp
  have ok: "fst (fst (handle latin1 ?now ?get events)) = 200"
    by code_simp
  have f: "findEvent events (js ''evt_456'') = Some 1"
    by code_simp
  have a: "find_index (\<lambda>a. Inr (JStr (attendee_id a)) =
      destructure_attendeeId (js_or (body_of ''att_101'') (JObj []))) (attendees (events ! 1)) = Some 0"
    by code_simp
  from checkin_is_the_only_mutation [of latin1 ?now ?post events] created f a
  have "only_stamp_changed 1 0 ?now events (snd (handle latin1 ?now ?post events))"
    by auto
  moreover from checkin_is_the_only_mutation [of latin1 ?now ?get events] ok
  have "snd (handle latin1 ?now ?get events) = events"
    by simp
  ultimately show ?thesis using created ok by simp
qed

subsection \<open>Stats\<close>

text \<open>
  C8. In a store with no empty timestamp, the stats of every event, as both
  \<^verbatim>\<open>GET /events\<close> and \<^verbatim>\<open>GET /events/:id\<close> return them, count the attendees
  of the event and those whose check-in timestamp is not \<^verbatim>\<open>null\<close>, and
  \<open>checkedIn + absent = total\<close>.
\<close>

theorem stats_count_attendees:
  assumes "no_empty_stamp evs"
  shows "list_events evs = (200, EventList (map event_payload evs)) \<and>
     (\<forall>eventId i. findEvent evs eventId = Some i \<longrightarrow>
        evs ! i \<in> set evs \<and> get_event evs eventId = (200, EventDetail (event_payload (evs ! i)))) \<and>
     (\<forall>e\<in>set evs.
        total_attendees (ej_stats (event_payload e)) = int (length (attendees e)) \<and>
        checkedIn (ej_stats (event_payload e)) =
          int (length (filter (\<lambda>a. checkedInAt a \<noteq> None) (attendees e))) \<and>
        checkedIn (ej_stats (event_payload e)) + absent (ej_stats (event_payload e)) =
          total_attendees (ej_stats (event_payload e)))"
proof -
  have "evs ! i \<in> set evs \<and> get_event evs eventId = (200, EventDetail (event_payload (evs ! i)))"
    if "findEvent evs eventId = Some i" for eventId i
    using that find_index_Some [OF that [unfolded findEvent_def]]
    by (simp add: get_event_def)
  moreover have "filter (\<lambda>a. stamp_truthy (checkedInAt a)) (attendees e) =
      filter (\<lambda>a. checkedInAt a \<noteq> None) (attendees e)" if "e \<in> set evs" for e
    using that assms unfolding no_empty_stamp_def
    by (intro filter_cong) (auto simp: stamp_truthy_iff)
  ultimately show ?thesis
    by (simp add: list_events_def event_payload_def buildStats_def Let_def)
qed

theorem stats_count_attendees_witness:
  "no_empty_stamp events \<and>
   findEvent events (js ''evt_123'') = Some 0 \<and>
   get_event events (js ''evt_123'') = (200, EventDetail (event_payload (events ! 0))) \<and>
   ej_stats (event_payload (events ! 0)) = \<lparr>total_attendees = 3, checkedIn = 1, absent = 2\<rparr> \<and>
   length (attendees (events ! 0)) = 3 \<and>
   length (filter (\<lambda>a. checkedInAt a \<noteq> None) (attendees (events ! 0))) = 1"
proof -
  have f: "findEvent events (js ''evt_123'') = Some 0"
    by code_simp
  have n: "length (attendees (events ! 0)) = 3"
    "length (filter (\<lambda>a. checkedInAt a \<noteq> None) (attendees (events ! 0))) = 1"
    by (simp_all add: events_def)
  have s: "ej_stats (event_payload (events ! 0)) = \<lparr>total_attendees = 3, checkedIn = 1, absent = 2\<rparr>"
    by (simp add: events_def event_payload_def buildStats_def stamp_truthy_def js_def)
  have w: "no_empty_stamp events"
    by (rule well_formed_no_empty_stamp [OF well_formed_events])
  from stats_count_attendees [OF w] f
  have "get_event events (js ''evt_123'') = (200, EventDetail (event_payload (events ! 0)))"
    by blast
  with f n s w show ?thesis by simp
qed

subsection \<open>The page number and the page size\<close>

text \<open>
  C3. The page number is not an integer for every query string: for
  \<^verbatim>\<open>?page=abc\<close>, \<^verbatim>\<open>parseInt\<close> gives NaN, \<^verbatim>\<open>Math.max(NaN, 1)\<close> is NaN,
  and the route answers with page NaN and no data.
\<close>

theorem page_of_letters_is_NaN:
  "page_number \<lparr>search = None, page = Some (QStr (js ''abc'')), limit = None\<rparr> = Inr NaN \<and>
   fst (list_attendees latin1 (js ''evt_123'')
     \<lparr>search = None, page = Some (QStr (js ''abc'')), limit = None\<rparr> events) =
     (200, Attendees [] NaN (Num 20) 3)"
  by code_simp

subsection \<open>Pagination\<close>






subsection \<open>Search\<close>

text \<open>
  C5. The search keeps the attendees whose normalized name, email and document, joined
  by single spaces, contain the normalized search text, and no other: in every response
  to a search for a text, total counts them, the page holds only such attendees, and a
  first page large enough holds them all. Two requests whose search texts are equal
  after normalization, and whose page and limit parameters are the same, get the same
  response. The array of the event has fewer than \<open>2^32\<close> elements, as every array has.
\<close>

theorem search_keeps_what_matches:
  assumes "findEvent evs eventId = Some i" "length (attendees (evs ! i)) < 2 ^ 32"
    and "js_String (q_or (search q) []) = Inr text"
  shows "(\<forall>pn ps. page_number q = Inr pn \<and> page_size q = Inr ps \<longrightarrow>
        (\<exists>d. fst (list_attendees rt eventId q evs) =
           (200, Attendees d pn ps (length (filter (wanted rt text) (attendees (evs ! i))))) \<and>
         mset d \<subseteq># mset (filter (wanted rt text) (attendees (evs ! i))) \<and>
         (\<forall>l. pn = Num 1 \<and> ps = Num l \<and> int (length (attendees (evs ! i))) \<le> l \<longrightarrow>
            mset d = mset (filter (wanted rt text) (attendees (evs ! i)))))) \<and>
     (\<forall>q' text'. js_String (q_or (search q') []) = Inr text' \<and>
          normalize_text rt text' = normalize_text rt text \<and>
          page q' = page q \<and> limit q' = limit q \<longrightarrow>
          list_attendees rt eventId q' evs = list_attendees rt eventId q evs)"
proof -
  let ?s = "normalize_text rt text"
  let ?L = "listing rt ?s (evs ! i)"
  let ?W = "filter (wanted rt text) (attendees (evs ! i))"
  from assms(3) have st: "search_text rt q = Inr ?s" by (simp add: search_text_def)
  have short: "length ?L \<le> length (attendees (evs ! i))"
    by (simp add: length_listing matching_def)
  with assms(2) have len: "int (length ?L) < 2 ^ 53" by simp
  have first: "\<exists>d. fst (list_attendees rt eventId q evs) = (200, Attendees d pn ps (length ?W)) \<and>
         mset d \<subseteq># mset ?W \<and>
         (\<forall>l. pn = Num 1 \<and> ps = Num l \<and> int (length (attendees (evs ! i))) \<le> l \<longrightarrow>
            mset d = mset ?W)"
    if pn: "page_number q = Inr pn" and ps: "page_size q = Inr ps" for pn ps
  proof -
    let ?d = "js_slice ?L (page_start pn ps) (page_end pn ps)"
    from st pn ps have "read_query rt q = Inr (?s, pn, ps)" by (simp add: read_query_Inr)
    from attendees_response [OF assms(1) this]
    have res: "fst (list_attendees rt eventId q evs) = (200, Attendees ?d pn ps (length ?W))"
      by (simp add: matching_wanted)
    have sub: "mset ?d \<subseteq># mset ?W"
      using mset_js_slice [of ?L] by (simp add: mset_listing)
    have "mset ?d = mset ?W"
      if "pn = Num 1" "ps = Num l" "int (length (attendees (evs ! i))) \<le> l" for l
    proof -
      from short that(3) have "length ?L \<le> nat l" by linarith
      with page_slice_finite(3) [OF pn [unfolded that(1)] ps [unfolded that(2)] len] that(1,2)
      show ?thesis by (simp add: mset_listing)
    qed
    with res sub show ?thesis by blast
  qed
  have same: "list_attendees rt eventId q' evs = list_attendees rt eventId q evs"
    if "js_String (q_or (search q') []) = Inr text'"
      "normalize_text rt text' = normalize_text rt text" "page q' = page q" "limit q' = limit q"
    for q' text'
  proof -
    from that assms(3) have "search_text rt q' = search_text rt q"
      "page_number q' = page_number q" "page_size q' = page_size q"
      by (simp_all add: search_text_def page_number_def page_size_def)
    then have "read_query rt q' = read_query rt q"
      by (simp add: read_query_def split: sum.splits)
    then show ?thesis by (simp add: list_attendees_eq split: option.splits)
  qed
  from first same show ?thesis by blast
qed

theorem search_keeps_what_matches_witness:
  "findEvent events (js ''evt_123'') = Some 0 \<and>
   length (attendees (events ! 0)) < 2 ^ 32 \<and>
   js_String (q_or (search \<lparr>search = Some (QStr (js ''Jos'' @ [0xE9])), page = None,
     limit = None\<rparr>) []) = Inr (js ''Jos'' @ [0xE9]) \<and>
   normalize_text latin1 (js ''jose'') = normalize_text latin1 (js ''Jos'' @ [0xE9]) \<and>
   filter (wanted latin1 (js ''Jos'' @ [0xE9])) (attendees (events ! 0)) =
     [attendees (events ! 0) ! 1] \<and>
   fst (list_attendees latin1 (js ''evt_123'')
     \<lparr>search = Some (QStr (js ''Jos'' @ [0xE9])), page = None, limit = None\<rparr> events) =
     (200, Attendees [attendees (events ! 0) ! 1] (Num 1) (Num 20) 1) \<and>
   list_attendees latin1 (js ''evt_123'')
     \<lparr>search = Some (QStr (js ''jose'')), page = None, limit = None\<rparr> events =
   list_attendees latin1 (js ''evt_123'')
     \<lparr>search = Some (QStr (js ''Jos'' @ [0xE9])), page = None, limit = None\<rparr> events"
proof -
  let ?Q = "\<lparr>search = Some (QStr (js ''Jos'' @ [0xE9])), page = None, limit = None\<rparr>"
  let ?q = "\<lparr>search = Some (QStr (js ''jose'')), page = None, limit = None\<rparr>"
  let ?T = "js ''Jos'' @ [0xE9]"
  have f: "findEvent events (js ''evt_123'') = Some 0" by code_simp
  have a: "length (attendees (events ! 0)) < 2 ^ 32" by (simp add: events_def)
  have a3: "int (length (attendees (events ! 0))) \<le> 20" by (simp add: events_def)
  have T: "js_String (q_or (search ?Q) []) = Inr ?T" by (simp add: q_or_def js_def)
  have t: "js_String (q_or (search ?q) []) = Inr (js ''jose'')" by (simp add: q_or_def js_def)
  have s: "normalize_text latin1 (js ''jose'') = normalize_text latin1 ?T" by code_simp
  have n: "page_number ?Q = Inr (Num 1)" "page_size ?Q = Inr (Num 20)" by code_simp+
  have "matching latin1 (normalize_text latin1 ?T) (events ! 0) = [attendees (events ! 0) ! 1]"
    by code_simp
  then have w: "filter (wanted latin1 ?T) (attendees (events ! 0)) = [attendees (events ! 0) ! 1]"
    by (simp only: matching_wanted)
  note keeps = search_keeps_what_matches [OF f a T, of latin1]
  from keeps n obtain d where
    res: "fst (list_attendees latin1 (js ''evt_123'') ?Q events) =
      (200, Attendees d (Num 1) (Num 20)
         (length (filter (wanted latin1 ?T) (attendees (events ! 0)))))"
    and all: "\<forall>l. Num 1 = Num 1 \<and> Num 20 = Num l \<and> int (length (attendees (events ! 0))) \<le> l \<longrightarrow>
       mset d = mset (filter (wanted latin1 ?T) (attendees (events ! 0)))"
    by blast
  from all a3 have "mset d = mset (filter (wanted latin1 ?T) (attendees (events ! 0)))"
    by blast
  with w have "d = [attendees (events ! 0) ! 1]" by simp
  with res w have r: "fst (list_attendees latin1 (js ''evt_123'') ?Q events) =
     (200, Attendees [attendees (events ! 0) ! 1] (Num 1) (Num 20) 1)"
    by simp
  from keeps
  have "\<forall>q' text'. js_String (q_or (search q') []) = Inr text' \<and>
          normalize_text latin1 text' = normalize_text latin1 ?T \<and>
          page q' = page ?Q \<and> limit q' = limit ?Q \<longrightarrow>
          list_attendees latin1 (js ''evt_123'') q' events =
          list_attendees latin1 (js ''evt_123'') ?Q events"
    by (elim conjE)
  then have "js_String (q_or (search ?q) []) = Inr (js ''jose'') \<and>
          normalize_text latin1 (js ''jose'') = normalize_text latin1 ?T \<and>
          page ?q = page ?Q \<and> limit ?q = limit ?Q \<longrightarrow>
          list_attendees latin1 (js ''evt_123'') ?q events =
          list_attendees latin1 (js ''evt_123'') ?Q events"
    by blast
  moreover have "page ?q = page ?Q" "limit ?q = limit ?Q" by simp_all
  ultimately have e: "list_attendees latin1 (js ''evt_123'') ?q events =
      list_attendees latin1 (js ''evt_123'') ?Q events"
    using t s by blast
  show ?thesis
    by (intro conjI) (rule f a T s w r e)+
qed

subsection \<open>Order\<close>

text \<open>
  C6. With a comparator that is consistent, as \<^verbatim>\<open>localeCompare\<close> is, the data array
  of every response that has one is in non-decreasing order of the normalized name,
  whatever the search, the page and the limit; such a response has status 200. (An
  unknown event, and a query parameter that cannot be converted to a string, are
  answered without a data array.)
\<close>

theorem page_is_sorted_by_name:
  assumes "consistent (localeCompare rt)"
    and "fst (list_attendees rt eventId q evs) = (st, Attendees d pn ps t)"
  shows "st = 200 \<and>
     sorted_wrt (\<lambda>a b. localeCompare rt (normalize_text rt (name a))
                           (normalize_text rt (name b)) \<le> 0) d"
  using assms(2)
proof (cases rule: attendees_data)
  case (1 i s)
  have "sorted_wrt (\<lambda>a b. by_name rt a b \<le> 0) (listing rt s (evs ! i))"
    unfolding listing_def by (rule sorted_sort_by [OF consistent_by_name [OF assms(1)]])
  then have "sorted_wrt (\<lambda>a b. by_name rt a b \<le> 0)
      (js_slice (listing rt s (evs ! i)) (page_start pn ps) (page_end pn ps))"
    by (rule sorted_js_slice)
  with 1 show ?thesis by (simp add: by_name_def)
qed

theorem page_is_sorted_by_name_witness:
  "consistent (localeCompare latin1) \<and>
   fst (list_attendees latin1 (js ''evt_456'') \<lparr>search = None, page = None, limit = None\<rparr>
     [(events ! 1)\<lparr>attendees := rev (attendees (events ! 1))\<rparr>]) =
     (200, Attendees (attendees (events ! 1)) (Num 1) (Num 20) 2) \<and>
   sorted_wrt (\<lambda>a b. localeCompare latin1 (normalize_text latin1 (name a))
                         (normalize_text latin1 (name b)) \<le> 0) (attendees (events ! 1))"
proof -
  let ?evs = "[(events ! 1)\<lparr>attendees := rev (attendees (events ! 1))\<rparr>]"
  let ?q = "\<lparr>search = None, page = None, limit = None\<rparr>"
  have r: "fst (list_attendees latin1 (js ''evt_456'') ?q ?evs) =
     (200, Attendees (attendees (events ! 1)) (Num 1) (Num 20) 2)" by code_simp
  from page_is_sorted_by_name [OF consistent_latin1 r]
  have "sorted_wrt (\<lambda>a b. localeCompare latin1 (normalize_text latin1 (name a))
                         (normalize_text latin1 (name b)) \<le> 0) (attendees (events ! 1))"
    by (rule conjunct2)
  with consistent_latin1 r show ?thesis by simp
qed

end
